theory Spec2Isabelle
  imports Main
begin

section \<open>The Sudoku engine of GameCenter: data model\<close>

text \<open>
  The source type is \<^verbatim>\<open>type Board = (number | null)[][]\<close>.  A cell read can also
  produce \<^verbatim>\<open>undefined\<close> (a column index past the end of a row), and reading a cell
  of a row that does not exist throws a \<^verbatim>\<open>TypeError\<close>.  Both are part of the model.
\<close>

datatype jsval = Undefined | Null | Num nat

type_synonym Board = "jsval list list"

datatype error = TypeError

datatype Difficulty = easy | medium | hard

text \<open>\<^verbatim>\<open>b[i][j]\<close> as an expression.\<close>

definition cellAt :: "Board \<Rightarrow> nat \<Rightarrow> nat \<Rightarrow> error + jsval" where
  "cellAt b i j =
     (if i < length b
      then Inr (if j < length (b ! i) then b ! i ! j else Undefined)
      else Inl TypeError)"

text \<open>\<^verbatim>\<open>xs[j] = v\<close> on one row array: JavaScript extends a short array with holes.\<close>

definition arrSet :: "jsval list \<Rightarrow> nat \<Rightarrow> jsval \<Rightarrow> jsval list" where
  "arrSet xs j v =
     (if j < length xs then xs[j := v]
      else xs @ replicate (j - length xs) Undefined @ [v])"

text \<open>\<^verbatim>\<open>b[i][j] = v\<close> as a statement; the board is returned updated.\<close>

definition setCell :: "Board \<Rightarrow> nat \<Rightarrow> nat \<Rightarrow> jsval \<Rightarrow> error + Board" where
  "setCell b i j v =
     (if i < length b then Inr (b[i := arrSet (b ! i) j v]) else Inl TypeError)"

subsection \<open>isSafeInBox and isSafe\<close>

text \<open>
  Both functions read a fixed sequence of cells and return false at the first one that
  is \<^verbatim>\<open>=== num\<close>.  \<open>scan\<close> is that loop over the sequence of coordinates.
\<close>

fun scan :: "Board \<Rightarrow> (nat \<times> nat) list \<Rightarrow> jsval \<Rightarrow> error + bool" where
  "scan b [] num = Inr True"
| "scan b ((i, j) # ps) num =
     (case cellAt b i j of
        Inl e \<Rightarrow> Inl e
      | Inr v \<Rightarrow> if v = num then Inr False else scan b ps num)"

definition boxCells :: "nat \<Rightarrow> nat \<Rightarrow> (nat \<times> nat) list" where
  "boxCells rowStart colStart =
     concat (map (\<lambda>i. map (\<lambda>j. (rowStart + i, colStart + j)) [0..<3]) [0..<3])"

definition isSafeInBox :: "Board \<Rightarrow> nat \<Rightarrow> nat \<Rightarrow> jsval \<Rightarrow> error + bool" where
  "isSafeInBox b rowStart colStart num = scan b (boxCells rowStart colStart) num"

definition lineCells :: "nat \<Rightarrow> nat \<Rightarrow> (nat \<times> nat) list" where
  "lineCells row col = concat (map (\<lambda>x. [(row, x), (x, col)]) [0..<9])"

definition isSafe :: "Board \<Rightarrow> nat \<Rightarrow> nat \<Rightarrow> jsval \<Rightarrow> error + bool" where
  "isSafe b row col num =
     scan b (lineCells row col @ boxCells (row - row mod 3) (col - col mod 3)) num"

subsection \<open>solveSudoku\<close>

text \<open>The double loop that looks for the first \<^verbatim>\<open>null\<close> cell in row-major order.\<close>

fun findNull :: "Board \<Rightarrow> (nat \<times> nat) list \<Rightarrow> error + (nat \<times> nat) option" where
  "findNull b [] = Inr None"
| "findNull b ((i, j) # ps) =
     (case cellAt b i j of
        Inl e \<Rightarrow> Inl e
      | Inr v \<Rightarrow> if v = Null then Inr (Some (i, j)) else findNull b ps)"

definition allCells :: "(nat \<times> nat) list" where
  "allCells = concat (map (\<lambda>i. map (\<lambda>j. (i, j)) [0..<9]) [0..<9])"

definition findEmpty :: "Board \<Rightarrow> error + (nat \<times> nat) option" where
  "findEmpty b = findNull b allCells"

text \<open>
  The loop \<^verbatim>\<open>for (num = 1; num <= 9; num++)\<close> of solveSudoku, over the digits still
  to try; \<open>rec\<close> is the recursive call.  The result \<open>None\<close> means that the run needs
  more nested calls than the budget allows (see \<open>solveSudokuD\<close>).
\<close>

fun tryNums :: "(Board \<Rightarrow> (error + bool \<times> Board) option) \<Rightarrow> Board \<Rightarrow> nat \<Rightarrow> nat \<Rightarrow>
    nat list \<Rightarrow> (error + bool \<times> Board) option" where
  "tryNums rec b row col [] = Some (Inr (False, b))"
| "tryNums rec b row col (num # nums) =
     (case isSafe b row col (Num num) of
        Inl e \<Rightarrow> Some (Inl e)
      | Inr safe \<Rightarrow>
          if safe then
            (case setCell b row col (Num num) of
               Inl e \<Rightarrow> Some (Inl e)
             | Inr b1 \<Rightarrow>
                 (case rec b1 of
                    None \<Rightarrow> None
                  | Some (Inl e) \<Rightarrow> Some (Inl e)
                  | Some (Inr (ok, b2)) \<Rightarrow>
                      if ok then Some (Inr (True, b2))
                      else (case setCell b2 row col Null of
                              Inl e \<Rightarrow> Some (Inl e)
                            | Inr b3 \<Rightarrow> tryNums rec b3 row col nums)))
          else tryNums rec b row col nums)"

definition solveBody :: "(Board \<Rightarrow> (error + bool \<times> Board) option) \<Rightarrow> Board \<Rightarrow>
    (error + bool \<times> Board) option" where
  "solveBody rec b =
     (case findEmpty b of
        Inl e \<Rightarrow> Some (Inl e)
      | Inr None \<Rightarrow> Some (Inr (True, b))
      | Inr (Some (row, col)) \<Rightarrow> tryNums rec b row col [1..<10])"

text \<open>
  solveSudoku with a budget \<open>d\<close> on the nesting depth of its recursive calls: the
  outermost call is at depth 0, and a call that would nest deeper than \<open>d\<close> gives \<open>None\<close>.
  The result is the returned boolean together with the board as the call leaves it.
\<close>

primrec solveSudokuD :: "nat \<Rightarrow> Board \<Rightarrow> (error + bool \<times> Board) option" where
  "solveSudokuD 0 b = solveBody (\<lambda>b1. None) b"
| "solveSudokuD (Suc d) b = solveBody (solveSudokuD d) b"

subsection \<open>checkWin\<close>

text \<open>
  In this value model \<^verbatim>\<open>temp\<close> is the board \<open>current\<close> with cell \<open>(i, j)\<close> set to
  \<^verbatim>\<open>null\<close>; the sharing between \<^verbatim>\<open>temp\<close> and \<^verbatim>\<open>current\<close> is the subject of the
  heap model further down.
\<close>

fun checkCells :: "Board \<Rightarrow> (nat \<times> nat) list \<Rightarrow> error + bool" where
  "checkCells current [] = Inr True"
| "checkCells current ((i, j) # ps) =
     (case cellAt current i j of
        Inl e \<Rightarrow> Inl e
      | Inr val \<Rightarrow>
          if val = Null then Inr False
          else (case setCell current i j Null of
                  Inl e \<Rightarrow> Inl e
                | Inr temp \<Rightarrow>
                    (case isSafe temp i j val of
                       Inl e \<Rightarrow> Inl e
                     | Inr safe \<Rightarrow> if \<not> safe then Inr False else checkCells current ps)))"

definition checkWin :: "Board \<Rightarrow> error + bool" where
  "checkWin current = checkCells current allCells"

section \<open>Well-formed boards and the constraint groups\<close>

text \<open>A 9 by 9 board of type \<^verbatim>\<open>(number | null)[][]\<close>.\<close>

definition wf9 :: "Board \<Rightarrow> bool" where
  "wf9 b = (length b = 9 \<and> list_all (\<lambda>r. length r = 9 \<and> list_all (\<lambda>v. v \<noteq> Undefined) r) b)"

text \<open>Cell \<open>(i, j)\<close> lies in the row, the column or the 3 by 3 box of cell \<open>(r, c)\<close>.\<close>

definition related :: "nat \<Rightarrow> nat \<Rightarrow> nat \<Rightarrow> nat \<Rightarrow> bool" where
  "related r c i j = (i = r \<or> j = c \<or> (i div 3 = r div 3 \<and> j div 3 = c div 3))"

text \<open>The value \<open>v\<close> occurs in the row, column or box of \<open>(r, c)\<close>, the cell itself included.\<close>

definition occursInGroups :: "Board \<Rightarrow> nat \<Rightarrow> nat \<Rightarrow> jsval \<Rightarrow> bool" where
  "occursInGroups b r c v =
     list_ex (\<lambda>i. list_ex (\<lambda>j. related r c i j \<and> b ! i ! j = v) [0..<9]) [0..<9]"

text \<open>The value \<open>v\<close> occurs in one of the OTHER cells of the row, column or box of \<open>(r, c)\<close>.\<close>

definition occursElsewhere :: "Board \<Rightarrow> nat \<Rightarrow> nat \<Rightarrow> jsval \<Rightarrow> bool" where
  "occursElsewhere b r c v =
     list_ex (\<lambda>i. list_ex (\<lambda>j. related r c i j \<and> (i, j) \<noteq> (r, c) \<and> b ! i ! j = v) [0..<9]) [0..<9]"

definition putCell :: "Board \<Rightarrow> nat \<Rightarrow> nat \<Rightarrow> jsval \<Rightarrow> Board" where
  "putCell b i j v = b[i := (b ! i)[j := v]]"

definition ownCellBoard :: Board where
  "ownCellBoard = (Num 5 # replicate 8 Null) # replicate 8 (replicate 9 Null)"

definition allOnesBoard :: Board where
  "allOnesBoard = replicate 9 (replicate 9 (Num 1))"

definition hasDuplicate :: "Board \<Rightarrow> bool" where
  "hasDuplicate g =
     list_ex (\<lambda>(i, j). list_ex (\<lambda>(i', j').
        related i j i' j' \<and> (i', j') \<noteq> (i, j) \<and> g ! i' ! j' = g ! i ! j) allCells) allCells"

definition hasEmpty :: "Board \<Rightarrow> bool" where
  "hasEmpty g = list_ex (\<lambda>(i, j). g ! i ! j = Null) allCells"

definition fullSudoku :: Board where
  "fullSudoku = map (map Num)
    [[1,2,3,4,5,6,7,8,9],
     [4,5,6,7,8,9,1,2,3],
     [7,8,9,1,2,3,4,5,6],
     [2,3,4,5,6,7,8,9,1],
     [5,6,7,8,9,1,2,3,4],
     [8,9,1,2,3,4,5,6,7],
     [3,4,5,6,7,8,9,1,2],
     [6,7,8,9,1,2,3,4,5],
     [9,1,2,3,4,5,6,7,8]]"

definition undoBoard :: Board where
  "undoBoard =
     [[Null, Null, Num 1, Num 2, Num 3, Num 4, Num 5, Num 6, Num 7],
      replicate 9 Null,
      replicate 9 Null,
      [Null, Num 8, Null, Null, Null, Null, Null, Null, Null],
      [Null, Num 9, Null, Null, Null, Null, Null, Null, Null],
      replicate 9 Null,
      replicate 9 Null,
      replicate 9 Null,
      replicate 9 Null]"

definition emptyCount :: "Board \<Rightarrow> nat" where
  "emptyCount b = length (filter (\<lambda>(i, j). b ! i ! j = Null) allCells)"

definition solveSudoku :: "Board \<Rightarrow> (error + bool \<times> Board) option" where
  "solveSudoku b = solveSudokuD 81 b"

definition consistent :: "Board \<Rightarrow> bool" where
  "consistent b \<longleftrightarrow> wf9 b \<and>
     (\<forall>i<9. \<forall>j<9. b ! i ! j \<noteq> Null \<longrightarrow>
        (\<exists>n. 1 \<le> n \<and> n \<le> 9 \<and> b ! i ! j = Num n) \<and> \<not> occursElsewhere b i j (b ! i ! j))"

definition recOK :: "(Board \<Rightarrow> (error + bool \<times> Board) option) \<Rightarrow> bool" where
  "recOK rec \<longleftrightarrow>
     (\<forall>b1 res. wf9 b1 \<longrightarrow> rec b1 = Some res \<longrightarrow>
        (\<exists>ok b2. res = Inr (ok, b2) \<and> wf9 b2 \<and> (\<not> ok \<longrightarrow> b2 = b1) \<and>
           (ok \<longrightarrow> \<not> hasEmpty b2 \<and> (consistent b1 \<longrightarrow> consistent b2))))"

text \<open>The full board \<open>s\<close> is a legal completion of the board \<open>b\<close>.\<close>

definition completes :: "Board \<Rightarrow> Board \<Rightarrow> bool" where
  "completes s b \<longleftrightarrow>
     consistent s \<and> \<not> hasEmpty s \<and> (\<forall>i<9. \<forall>j<9. b ! i ! j \<noteq> Null \<longrightarrow> s ! i ! j = b ! i ! j)"

subsection \<open>generateSudoku\<close>

text \<open>
  The generator draws from \<^verbatim>\<open>Math.random()\<close>.  In the model the draws are a parameter:
  the list \<open>rs\<close> holds the successive values of \<^verbatim>\<open>Math.floor(Math.random() * 9)\<close>, each
  in 0..8, that a run consumes.  A run that has used up \<open>rs\<close> and still draws has not
  returned within these draws: the result is \<open>None\<close>.
\<close>

definition emptyBoard :: Board where
  "emptyBoard = replicate 9 (replicate 9 Null)"

text \<open>The loop \<^verbatim>\<open>do { num = ... + 1 } while (!isSafeInBox(b, startRow, startRow, num))\<close>.\<close>

fun drawNum :: "Board \<Rightarrow> nat \<Rightarrow> nat list \<Rightarrow> (error + nat \<times> nat list) option" where
  "drawNum b startRow [] = None"
| "drawNum b startRow (r # rs) =
     (case isSafeInBox b startRow startRow (Num (r + 1)) of
        Inl e \<Rightarrow> Some (Inl e)
      | Inr safe \<Rightarrow> if safe then Some (Inr (r + 1, rs)) else drawNum b startRow rs)"

fun fillCells :: "Board \<Rightarrow> nat \<Rightarrow> (nat \<times> nat) list \<Rightarrow> nat list \<Rightarrow>
    (error + Board \<times> nat list) option" where
  "fillCells b startRow [] rs = Some (Inr (b, rs))"
| "fillCells b startRow ((i, j) # ps) rs =
     (case drawNum b startRow rs of
        None \<Rightarrow> None
      | Some (Inl e) \<Rightarrow> Some (Inl e)
      | Some (Inr (num, rs1)) \<Rightarrow>
          (case setCell b (startRow + i) (startRow + j) (Num num) of
             Inl e \<Rightarrow> Some (Inl e)
           | Inr b1 \<Rightarrow> fillCells b1 startRow ps rs1))"

definition fillDiagonalBox :: "Board \<Rightarrow> nat \<Rightarrow> nat list \<Rightarrow> (error + Board \<times> nat list) option" where
  "fillDiagonalBox b startRow rs = fillCells b startRow (boxCells 0 0) rs"

definition attempts :: "Difficulty \<Rightarrow> nat" where
  "attempts diff = (if diff = easy then 30 else if diff = medium then 45 else 56)"

text \<open>The loop \<^verbatim>\<open>while (count > 0)\<close> that clears cells of the puzzle board.\<close>

fun carve :: "Board \<Rightarrow> nat \<Rightarrow> nat list \<Rightarrow> (error + Board) option" where
  "carve puzzleBoard count rs =
     (if count > 0 then
        (case rs of
           i # j # rs1 \<Rightarrow>
             (case cellAt puzzleBoard i j of
                Inl e \<Rightarrow> Some (Inl e)
              | Inr v \<Rightarrow>
                  if v \<noteq> Null then
                    (case setCell puzzleBoard i j Null of
                       Inl e \<Rightarrow> Some (Inl e)
                     | Inr puzzleBoard1 \<Rightarrow> carve puzzleBoard1 (count - 1) rs1)
                  else carve puzzleBoard count rs1)
         | _ \<Rightarrow> None)
      else Some (Inr puzzleBoard))"

text \<open>
  generateSudoku returns the pair \<^verbatim>\<open>{ solved: newBoard, puzzle: puzzleBoard }\<close>.  The
  boolean that solveSudoku returns is not looked at.  \<^verbatim>\<open>JSON.parse(JSON.stringify(newBoard))\<close>
  is a deep copy: the puzzle board starts as the value of the solved board and shares
  nothing with it.
\<close>

definition generateSudoku :: "nat list \<Rightarrow> Difficulty \<Rightarrow> (error + Board \<times> Board) option" where
  "generateSudoku rs diff =
     (case fillDiagonalBox emptyBoard 0 rs of
        None \<Rightarrow> None
      | Some (Inl e) \<Rightarrow> Some (Inl e)
      | Some (Inr (b1, rs1)) \<Rightarrow>
     (case fillDiagonalBox b1 3 rs1 of
        None \<Rightarrow> None
      | Some (Inl e) \<Rightarrow> Some (Inl e)
      | Some (Inr (b2, rs2)) \<Rightarrow>
     (case fillDiagonalBox b2 6 rs2 of
        None \<Rightarrow> None
      | Some (Inl e) \<Rightarrow> Some (Inl e)
      | Some (Inr (b3, rs3)) \<Rightarrow>
     (case solveSudoku b3 of
        None \<Rightarrow> None
      | Some (Inl e) \<Rightarrow> Some (Inl e)
      | Some (Inr (ok, newBoard)) \<Rightarrow>
     (case carve newBoard (attempts diff) rs3 of
        None \<Rightarrow> None
      | Some (Inl e) \<Rightarrow> Some (Inl e)
      | Some (Inr puzzleBoard) \<Rightarrow> Some (Inr (newBoard, puzzleBoard)))))))"

definition fillDraws0 :: "nat list" where
  "fillDraws0 =
     [4, 4, 6, 3, 8, 2, 5, 0, 1, 7]"

definition fillDraws3 :: "nat list" where
  "fillDraws3 =
     [8, 4, 5, 6, 7, 2, 1, 0, 3]"

definition fillDraws6 :: "nat list" where
  "fillDraws6 =
     [7, 6, 4, 1, 5, 2, 8, 3, 0]"

definition seeded1 :: Board where
  "seeded1 =
     [[Num 5, Num 7, Num 4, Null, Null, Null, Null, Null, Null],
      [Num 9, Num 3, Num 6, Null, Null, Null, Null, Null, Null],
      [Num 1, Num 2, Num 8, Null, Null, Null, Null, Null, Null],
      [Null, Null, Null, Null, Null, Null, Null, Null, Null],
      [Null, Null, Null, Null, Null, Null, Null, Null, Null],
      [Null, Null, Null, Null, Null, Null, Null, Null, Null],
      [Null, Null, Null, Null, Null, Null, Null, Null, Null],
      [Null, Null, Null, Null, Null, Null, Null, Null, Null],
      [Null, Null, Null, Null, Null, Null, Null, Null, Null]]"

definition seeded2 :: Board where
  "seeded2 =
     [[Num 5, Num 7, Num 4, Null, Null, Null, Null, Null, Null],
      [Num 9, Num 3, Num 6, Null, Null, Null, Null, Null, Null],
      [Num 1, Num 2, Num 8, Null, Null, Null, Null, Null, Null],
      [Null, Null, Null, Num 9, Num 5, Num 6, Null, Null, Null],
      [Null, Null, Null, Num 7, Num 8, Num 3, Null, Null, Null],
      [Null, Null, Null, Num 2, Num 1, Num 4, Null, Null, Null],
      [Null, Null, Null, Null, Null, Null, Null, Null, Null],
      [Null, Null, Null, Null, Null, Null, Null, Null, Null],
      [Null, Null, Null, Null, Null, Null, Null, Null, Null]]"

definition carveDrawsEasy :: "nat list" where
  "carveDrawsEasy =
     [8, 4, 8, 1, 8, 4, 7, 8, 1, 7, 2, 3, 7, 1, 4, 2, 2, 7, 3, 6, 6, 7, 7, 0, 1, 6, 0,
      7, 6, 8, 6, 0, 3, 2, 2, 4, 8, 8, 2, 5, 3, 3, 6, 3, 7, 2, 1, 0, 4, 4, 0, 2, 5, 1,
      5, 7, 0, 5, 3, 8, 4, 0]"

definition carveDrawsHard :: "nat list" where
  "carveDrawsHard =
     [6, 0, 6, 4, 6, 0, 0, 0, 7, 2, 8, 3, 5, 7, 7, 6, 1, 7, 6, 6, 2, 4, 3, 8, 3, 6, 7,
      4, 2, 6, 4, 0, 7, 5, 3, 1, 2, 8, 0, 4, 5, 5, 1, 5, 0, 8, 7, 3, 6, 7, 8, 4, 0, 7,
      8, 1, 1, 3, 4, 7, 4, 6, 8, 5, 0, 3, 1, 1, 3, 3, 4, 2, 7, 1, 4, 5, 1, 2, 4, 4, 2,
      2, 2, 1, 6, 2, 3, 7, 1, 8, 8, 0, 1, 0, 6, 1, 4, 3, 7, 0, 2, 3, 1, 4, 7, 8, 3, 0,
      8, 7, 2, 0, 8, 6]"

definition seededBoard :: Board where
  "seededBoard =
     [[Num 5, Num 7, Num 4, Null, Null, Null, Null, Null, Null],
      [Num 9, Num 3, Num 6, Null, Null, Null, Null, Null, Null],
      [Num 1, Num 2, Num 8, Null, Null, Null, Null, Null, Null],
      [Null, Null, Null, Num 9, Num 5, Num 6, Null, Null, Null],
      [Null, Null, Null, Num 7, Num 8, Num 3, Null, Null, Null],
      [Null, Null, Null, Num 2, Num 1, Num 4, Null, Null, Null],
      [Null, Null, Null, Null, Null, Null, Num 8, Num 7, Num 5],
      [Null, Null, Null, Null, Null, Null, Num 2, Num 6, Num 3],
      [Null, Null, Null, Null, Null, Null, Num 9, Num 4, Num 1]]"

definition solvedBoard :: Board where
  "solvedBoard =
     [[Num 5, Num 7, Num 4, Num 1, Num 2, Num 8, Num 3, Num 9, Num 6],
      [Num 9, Num 3, Num 6, Num 4, Num 7, Num 5, Num 1, Num 2, Num 8],
      [Num 1, Num 2, Num 8, Num 3, Num 6, Num 9, Num 4, Num 5, Num 7],
      [Num 2, Num 1, Num 3, Num 9, Num 5, Num 6, Num 7, Num 8, Num 4],
      [Num 4, Num 5, Num 9, Num 7, Num 8, Num 3, Num 6, Num 1, Num 2],
      [Num 6, Num 8, Num 7, Num 2, Num 1, Num 4, Num 5, Num 3, Num 9],
      [Num 3, Num 4, Num 1, Num 6, Num 9, Num 2, Num 8, Num 7, Num 5],
      [Num 7, Num 9, Num 5, Num 8, Num 4, Num 1, Num 2, Num 6, Num 3],
      [Num 8, Num 6, Num 2, Num 5, Num 3, Num 7, Num 9, Num 4, Num 1]]"

definition easyPuzzle :: Board where
  "easyPuzzle =
     [[Num 5, Num 7, Null, Num 1, Num 2, Null, Num 3, Null, Num 6],
      [Null, Num 3, Num 6, Num 4, Num 7, Num 5, Null, Null, Num 8],
      [Num 1, Num 2, Num 8, Null, Null, Null, Num 4, Null, Num 7],
      [Num 2, Num 1, Null, Null, Num 5, Num 6, Null, Num 8, Null],
      [Null, Num 5, Null, Num 7, Null, Num 3, Num 6, Num 1, Num 2],
      [Num 6, Null, Num 7, Num 2, Num 1, Num 4, Num 5, Null, Num 9],
      [Null, Num 4, Num 1, Null, Num 9, Num 2, Num 8, Null, Null],
      [Null, Null, Null, Num 8, Num 4, Num 1, Num 2, Num 6, Null],
      [Num 8, Null, Num 2, Num 5, Null, Num 7, Num 9, Num 4, Null]]"

definition hardPuzzle :: Board where
  "hardPuzzle =
     [[Null, Num 7, Num 4, Null, Null, Num 8, Num 3, Null, Null],
      [Null, Null, Null, Null, Null, Null, Num 1, Null, Null],
      [Null, Null, Null, Null, Null, Num 9, Null, Num 5, Null],
      [Null, Null, Num 3, Null, Num 5, Num 6, Null, Null, Null],
      [Null, Num 5, Null, Null, Null, Null, Null, Null, Num 2],
      [Num 6, Num 8, Num 7, Num 2, Num 1, Null, Num 5, Null, Num 9],
      [Null, Null, Null, Num 6, Null, Num 2, Null, Null, Num 5],
      [Null, Null, Null, Null, Null, Null, Null, Num 6, Null],
      [Null, Null, Num 2, Null, Null, Null, Null, Null, Num 1]]"

definition drawsEasy :: "nat list" where
  "drawsEasy = fillDraws0 @ fillDraws3 @ fillDraws6 @ carveDrawsEasy"

definition drawsHard :: "nat list" where
  "drawsHard = fillDraws0 @ fillDraws3 @ fillDraws6 @ carveDrawsHard"

definition filledCount :: "Board \<Rightarrow> nat" where
  "filledCount b = length (filter (\<lambda>(i, j). b ! i ! j \<noteq> Null) allCells)"

definition drawsInRange :: "nat list \<Rightarrow> bool" where
  "drawsInRange rs = list_all (\<lambda>r. r < 9) rs"

definition diagOnly :: "Board \<Rightarrow> bool" where
  "diagOnly b \<longleftrightarrow> (\<forall>i<9. \<forall>j<9. b ! i ! j \<noteq> Null \<longrightarrow> i div 3 = j div 3)"

definition subsetOf :: "Board \<Rightarrow> Board \<Rightarrow> bool" where
  "subsetOf puzzle solved =
     list_all (\<lambda>(i, j). puzzle ! i ! j = Null \<or> puzzle ! i ! j = solved ! i ! j) allCells"

definition rowVals :: "Board \<Rightarrow> nat \<Rightarrow> jsval list" where
  "rowVals b i = map (\<lambda>j. b ! i ! j) [0..<9]"

definition colVals :: "Board \<Rightarrow> nat \<Rightarrow> jsval list" where
  "colVals b j = map (\<lambda>i. b ! i ! j) [0..<9]"

definition boxVals :: "Board \<Rightarrow> nat \<Rightarrow> jsval list" where
  "boxVals b k = map (\<lambda>(i, j). b ! i ! j) (boxCells (3 * (k div 3)) (3 * (k mod 3)))"

definition eachDigitOnce :: "jsval list \<Rightarrow> bool" where
  "eachDigitOnce vs = (length vs = 9 \<and> list_all (\<lambda>d. count_list vs (Num d) = 1) [1..<10])"

definition validSolution :: "Board \<Rightarrow> bool" where
  "validSolution b =
     (wf9 b \<and> \<not> hasEmpty b \<and>
      list_all (\<lambda>k. eachDigitOnce (rowVals b k) \<and> eachDigitOnce (colVals b k) \<and>
                     eachDigitOnce (boxVals b k)) [0..<9])"

section \<open>checkWin on a heap of shared arrays\<close>

text \<open>
  A board is a JavaScript array of references to row arrays.  checkWin builds
  \<^verbatim>\<open>temp\<close> with \<^verbatim>\<open>[...current]\<close>, a new outer array that holds the SAME row references, and
  replaces one of them by a copy of the row before it writes \<^verbatim>\<open>null\<close>.  To see what the
  write changes, arrays live at addresses of a heap: \<open>rowArr\<close> holds the row arrays,
  \<open>outerArr\<close> the arrays of row references, and \<open>nextAddr\<close> is the next fresh address.
\<close>

type_synonym addr = nat

record heap =
  rowArr :: "addr \<Rightarrow> jsval list option"
  outerArr :: "addr \<Rightarrow> addr list option"
  nextAddr :: addr

definition allocRow :: "heap \<Rightarrow> jsval list \<Rightarrow> addr \<times> heap" where
  "allocRow h xs =
     (nextAddr h, h\<lparr>rowArr := (rowArr h)(nextAddr h \<mapsto> xs), nextAddr := Suc (nextAddr h)\<rparr>)"

definition allocOuter :: "heap \<Rightarrow> addr list \<Rightarrow> addr \<times> heap" where
  "allocOuter h refs =
     (nextAddr h, h\<lparr>outerArr := (outerArr h)(nextAddr h \<mapsto> refs), nextAddr := Suc (nextAddr h)\<rparr>)"

text \<open>\<^verbatim>\<open>b[i]\<close> used as a row: a \<^verbatim>\<open>TypeError\<close> when there is no such row.\<close>

definition rowRef :: "heap \<Rightarrow> addr \<Rightarrow> nat \<Rightarrow> error + addr" where
  "rowRef h b i =
     (case outerArr h b of
        None \<Rightarrow> Inl TypeError
      | Some refs \<Rightarrow> if i < length refs then Inr (refs ! i) else Inl TypeError)"

text \<open>\<^verbatim>\<open>b[i][j]\<close> as an expression.\<close>

definition readCell :: "heap \<Rightarrow> addr \<Rightarrow> nat \<Rightarrow> nat \<Rightarrow> error + jsval" where
  "readCell h b i j =
     (case rowRef h b i of
        Inl e \<Rightarrow> Inl e
      | Inr ra \<Rightarrow>
          (case rowArr h ra of
             None \<Rightarrow> Inl TypeError
           | Some xs \<Rightarrow> Inr (if j < length xs then xs ! j else Undefined)))"

text \<open>\<^verbatim>\<open>b[i][j] = v\<close>: the write goes to the row array that \<^verbatim>\<open>b[i]\<close> refers to.\<close>

definition writeCell :: "heap \<Rightarrow> addr \<Rightarrow> nat \<Rightarrow> nat \<Rightarrow> jsval \<Rightarrow> error + heap" where
  "writeCell h b i j v =
     (case rowRef h b i of
        Inl e \<Rightarrow> Inl e
      | Inr ra \<Rightarrow>
          (case rowArr h ra of
             None \<Rightarrow> Inl TypeError
           | Some xs \<Rightarrow> Inr (h\<lparr>rowArr := (rowArr h)(ra \<mapsto> arrSet xs j v)\<rparr>)))"

text \<open>\<^verbatim>\<open>b[i] = ra\<close> for an index \<open>i\<close> that the array has.\<close>

definition setRowRef :: "heap \<Rightarrow> addr \<Rightarrow> nat \<Rightarrow> addr \<Rightarrow> error + heap" where
  "setRowRef h b i ra =
     (case outerArr h b of
        None \<Rightarrow> Inl TypeError
      | Some refs \<Rightarrow> Inr (h\<lparr>outerArr := (outerArr h)(b \<mapsto> refs[i := ra])\<rparr>))"

fun scanH :: "heap \<Rightarrow> addr \<Rightarrow> (nat \<times> nat) list \<Rightarrow> jsval \<Rightarrow> error + bool" where
  "scanH h b [] num = Inr True"
| "scanH h b ((i, j) # ps) num =
     (case readCell h b i j of
        Inl e \<Rightarrow> Inl e
      | Inr v \<Rightarrow> if v = num then Inr False else scanH h b ps num)"

definition isSafeH :: "heap \<Rightarrow> addr \<Rightarrow> nat \<Rightarrow> nat \<Rightarrow> jsval \<Rightarrow> error + bool" where
  "isSafeH h b row col num =
     scanH h b (lineCells row col @ boxCells (row - row mod 3) (col - col mod 3)) num"

text \<open>
  The three statements \<^verbatim>\<open>const temp = [...current]; temp[i] = [...current[i]];
  temp[i][j] = null;\<close>.  The result is the reference \<^verbatim>\<open>temp\<close> and the heap.
\<close>

definition makeTemp :: "heap \<Rightarrow> addr \<Rightarrow> nat \<Rightarrow> nat \<Rightarrow> (error + addr) \<times> heap" where
  "makeTemp h current i j =
     (case outerArr h current of
        None \<Rightarrow> (Inl TypeError, h)
      | Some refs \<Rightarrow>
          (let (temp, h1) = allocOuter h refs in
           case rowRef h1 current i of
             Inl e \<Rightarrow> (Inl e, h1)
           | Inr ra \<Rightarrow>
               (case rowArr h1 ra of
                  None \<Rightarrow> (Inl TypeError, h1)
                | Some xs \<Rightarrow>
                    (let (nr, h2) = allocRow h1 xs in
                     case setRowRef h2 temp i nr of
                       Inl e \<Rightarrow> (Inl e, h2)
                     | Inr h3 \<Rightarrow>
                         (case writeCell h3 temp i j Null of
                            Inl e \<Rightarrow> (Inl e, h3)
                          | Inr h4 \<Rightarrow> (Inr temp, h4))))))"

fun checkCellsH :: "heap \<Rightarrow> addr \<Rightarrow> (nat \<times> nat) list \<Rightarrow> (error + bool) \<times> heap" where
  "checkCellsH h current [] = (Inr True, h)"
| "checkCellsH h current ((i, j) # ps) =
     (case readCell h current i j of
        Inl e \<Rightarrow> (Inl e, h)
      | Inr val \<Rightarrow>
          if val = Null then (Inr False, h)
          else (case makeTemp h current i j of
                  (Inl e, h1) \<Rightarrow> (Inl e, h1)
                | (Inr temp, h1) \<Rightarrow>
                    (case isSafeH h1 temp i j val of
                       Inl e \<Rightarrow> (Inl e, h1)
                     | Inr safe \<Rightarrow>
                         if \<not> safe then (Inr False, h1) else checkCellsH h1 current ps)))"

definition checkWinH :: "heap \<Rightarrow> addr \<Rightarrow> (error + bool) \<times> heap" where
  "checkWinH h current = checkCellsH h current allCells"

text \<open>The reference \<open>b\<close> is a board of the heap: the outer array and its rows are allocated.\<close>

definition validRef :: "heap \<Rightarrow> addr \<Rightarrow> bool" where
  "validRef h b =
     (case outerArr h b of
        None \<Rightarrow> False
      | Some refs \<Rightarrow> b < nextAddr h \<and> list_all (\<lambda>r. r < nextAddr h \<and> rowArr h r \<noteq> None) refs)"

text \<open>The board, as a value, that the reference \<open>b\<close> stands for.\<close>

definition boardOf :: "heap \<Rightarrow> addr \<Rightarrow> Board" where
  "boardOf h b = map (\<lambda>r. the (rowArr h r)) (the (outerArr h b))"

text \<open>A heap that holds one board: its rows at the addresses 0..8, the outer array at 9.\<close>

definition heapWith :: "Board \<Rightarrow> heap" where
  "heapWith b =
     \<lparr>rowArr = (\<lambda>a. if a < 9 then Some (b ! a) else None),
      outerArr = (\<lambda>a. if a = 9 then Some [0..<9] else None),
      nextAddr = 10\<rparr>"

definition sameBelow :: "addr \<Rightarrow> heap \<Rightarrow> heap \<Rightarrow> bool" where
  "sameBelow n h h' \<longleftrightarrow> (\<forall>a<n. rowArr h' a = rowArr h a \<and> outerArr h' a = outerArr h a)"

section \<open>Basic facts\<close>

lemma wf9_length: "wf9 b \<Longrightarrow> length b = 9"
  by (simp add: wf9_def)

lemma wf9_row: "wf9 b \<Longrightarrow> i < 9 \<Longrightarrow> length (b ! i) = 9"
  by (simp add: wf9_def list_all_length)

lemma wf9_cell: "wf9 b \<Longrightarrow> i < 9 \<Longrightarrow> j < 9 \<Longrightarrow> b ! i ! j \<noteq> Undefined"
  by (simp add: wf9_def list_all_length)

lemma cellAt_wf9: "wf9 b \<Longrightarrow> i < 9 \<Longrightarrow> j < 9 \<Longrightarrow> cellAt b i j = Inr (b ! i ! j)"
  by (simp add: cellAt_def wf9_length wf9_row)

lemma scan_wf9:
  "wf9 b \<Longrightarrow> \<forall>(i, j) \<in> set ps. i < 9 \<and> j < 9 \<Longrightarrow>
   scan b ps v = Inr (\<forall>(i, j) \<in> set ps. b ! i ! j \<noteq> v)"
  by (induction ps) (auto simp: cellAt_wf9)

lemma in_lineCells: "(i, j) \<in> set (lineCells r c) \<longleftrightarrow> (i = r \<and> j < 9) \<or> (j = c \<and> i < 9)"
  unfolding lineCells_def set_concat set_map set_upt by auto

lemma ex_off: "(\<exists>i\<in>{0..<3::nat}. a = s + i) \<longleftrightarrow> s \<le> a \<and> a < s + 3"
proof
  assume "s \<le> a \<and> a < s + 3"
  then show "\<exists>i\<in>{0..<3::nat}. a = s + i"
    by (rule_tac x="a - s" in bexI) auto
qed auto

lemma in_boxCells:
  "(a, b) \<in> set (boxCells sr sc) \<longleftrightarrow> sr \<le> a \<and> a < sr + 3 \<and> sc \<le> b \<and> b < sc + 3"
proof -
  have "(a, b) \<in> set (boxCells sr sc) \<longleftrightarrow>
        (\<exists>i\<in>{0..<3}. a = sr + i) \<and> (\<exists>j\<in>{0..<3}. b = sc + j)"
    unfolding boxCells_def set_concat set_map set_upt by auto
  then show ?thesis
    unfolding ex_off by simp
qed

lemma box_start: "r - r mod 3 = 3 * (r div (3::nat))"
  by (simp add: minus_mod_eq_mult_div)

lemma box_range: "r - r mod 3 \<le> i \<and> i < r - r mod 3 + 3 \<longleftrightarrow> i div 3 = r div (3::nat)"
  unfolding box_start by (auto simp: div_nat_eqI less_mult_imp_div_less)

lemma div3_lt9: "(i::nat) div 3 = r div 3 \<Longrightarrow> r < 9 \<Longrightarrow> i < 9"
proof -
  assume a: "i div 3 = r div 3" "r < 9"
  then have "r div 3 < 3" by (simp add: div_less_iff_less_mult)
  with a have "i div 3 < 3" by simp
  then show "i < 9" by (simp add: div_less_iff_less_mult)
qed

lemma in_isSafe_cells:
  assumes "r < 9" "c < 9"
  shows "(i, j) \<in> set (lineCells r c @ boxCells (r - r mod 3) (c - c mod 3)) \<longleftrightarrow>
     i < 9 \<and> j < 9 \<and> related r c i j"
proof -
  have "(i, j) \<in> set (lineCells r c @ boxCells (r - r mod 3) (c - c mod 3)) \<longleftrightarrow>
        ((i = r \<and> j < 9) \<or> (j = c \<and> i < 9)) \<or> (i div 3 = r div 3 \<and> j div 3 = c div 3)"
    unfolding set_append Un_iff in_lineCells in_boxCells
    using box_range[of r i] box_range[of c j] by blast
  then show ?thesis
    using assms div3_lt9[of i r] div3_lt9[of j c] unfolding related_def by blast
qed

lemma isSafe_wf9:
  assumes "wf9 b" "r < 9" "c < 9"
  shows "isSafe b r c v = Inr (\<forall>i<9. \<forall>j<9. related r c i j \<longrightarrow> b ! i ! j \<noteq> v)"
proof -
  let ?ps = "lineCells r c @ boxCells (r - r mod 3) (c - c mod 3)"
  have s: "\<And>i j. (i, j) \<in> set ?ps \<longleftrightarrow> i < 9 \<and> j < 9 \<and> related r c i j"
    using assms(2,3) by (rule in_isSafe_cells)
  have "scan b ?ps v = Inr (\<forall>(i, j) \<in> set ?ps. b ! i ! j \<noteq> v)"
    using assms(1) by (rule scan_wf9) (use s in blast)
  also have "(\<forall>(i, j) \<in> set ?ps. b ! i ! j \<noteq> v) \<longleftrightarrow>
             (\<forall>i<9. \<forall>j<9. related r c i j \<longrightarrow> b ! i ! j \<noteq> v)"
    using s by blast
  finally show ?thesis
    unfolding isSafe_def .
qed

lemma occursInGroups_iff:
  "occursInGroups b r c v \<longleftrightarrow> (\<exists>i<9. \<exists>j<9. related r c i j \<and> b ! i ! j = v)"
  unfolding occursInGroups_def
  by (simp only: list_ex_iff set_upt Bex_def atLeastLessThan_iff le0 simp_thms)

lemma occursElsewhere_iff:
  "occursElsewhere b r c v \<longleftrightarrow>
     (\<exists>i<9. \<exists>j<9. related r c i j \<and> (i, j) \<noteq> (r, c) \<and> b ! i ! j = v)"
  unfolding occursElsewhere_def
  by (simp only: list_ex_iff set_upt Bex_def atLeastLessThan_iff le0 simp_thms)

lemma setCell_wf9: "wf9 b \<Longrightarrow> i < 9 \<Longrightarrow> j < 9 \<Longrightarrow> setCell b i j v = Inr (putCell b i j v)"
  by (simp add: setCell_def arrSet_def putCell_def wf9_length wf9_row)

lemma wf9_putCell:
  assumes "wf9 b" "v \<noteq> Undefined"
  shows "wf9 (putCell b i j v)"
proof (cases "i < length b")
  case False
  then show ?thesis using assms by (simp add: putCell_def list_update_beyond)
next
  case True
  let ?r = "(b ! i)[j := v]"
  have bi: "length (b ! i) = 9" "\<forall>x\<in>set (b ! i). x \<noteq> Undefined"
    using assms(1) True nth_mem[of i b] by (auto simp: wf9_def list_all_iff)
  have "set ?r \<subseteq> insert v (set (b ! i))"
    by (rule set_update_subset_insert)
  with bi assms(2) have r: "length ?r = 9" "\<forall>x\<in>set ?r. x \<noteq> Undefined"
    by auto
  have "set (b[i := ?r]) \<subseteq> insert ?r (set b)"
    by (rule set_update_subset_insert)
  with r assms(1) have "\<forall>q\<in>set (b[i := ?r]). length q = 9 \<and> (\<forall>x\<in>set q. x \<noteq> Undefined)"
    unfolding wf9_def list_all_iff by blast
  then show ?thesis
    using assms(1) by (simp add: wf9_def list_all_iff putCell_def)
qed

lemma putCell_nth:
  "wf9 b \<Longrightarrow> i < 9 \<Longrightarrow> j < 9 \<Longrightarrow> i' < 9 \<Longrightarrow> j' < 9 \<Longrightarrow>
   putCell b i j v ! i' ! j' = (if i' = i \<and> j' = j then v else b ! i' ! j')"
  by (simp add: putCell_def nth_list_update wf9_length wf9_row)

lemma in_allCells: "(i, j) \<in> set allCells \<longleftrightarrow> i < 9 \<and> j < 9"
  unfolding allCells_def set_concat set_map set_upt by (auto simp: image_iff)

lemma findNull_wf9:
  "wf9 b \<Longrightarrow> \<forall>(i, j) \<in> set ps. i < 9 \<and> j < 9 \<Longrightarrow>
   findNull b ps = Inr (find (\<lambda>(i, j). b ! i ! j = Null) ps)"
  by (induction ps) (auto simp: cellAt_wf9)

lemma findEmpty_wf9: "wf9 b \<Longrightarrow> findEmpty b = Inr (find (\<lambda>(i, j). b ! i ! j = Null) allCells)"
  unfolding findEmpty_def by (rule findNull_wf9) (auto simp: in_allCells)

lemma findEmpty_None:
  "wf9 b \<Longrightarrow> findEmpty b = Inr None \<longleftrightarrow> (\<forall>i<9. \<forall>j<9. b ! i ! j \<noteq> Null)"
  by (auto simp: findEmpty_wf9 find_None_iff in_allCells)

lemma findEmpty_Some:
  assumes "wf9 b" "findEmpty b = Inr (Some (r, c))"
  shows "r < 9 \<and> c < 9 \<and> b ! r ! c = Null"
proof -
  have f: "find (\<lambda>(i, j). b ! i ! j = Null) allCells = Some (r, c)"
    using assms by (simp add: findEmpty_wf9)
  then obtain k where "k < length allCells" "b ! r ! c = Null" "(r, c) = allCells ! k"
    unfolding find_Some_iff by auto
  then have "(r, c) \<in> set allCells" "b ! r ! c = Null" by auto
  then show ?thesis by (simp add: in_allCells)
qed

lemma isSafe_occurs:
  assumes "wf9 b" "r < 9" "c < 9"
  shows "isSafe b r c v = Inr (\<not> occursInGroups b r c v)"
proof -
  have "(\<forall>i<9. \<forall>j<9. related r c i j \<longrightarrow> b ! i ! j \<noteq> v) \<longleftrightarrow> \<not> occursInGroups b r c v"
    unfolding occursInGroups_iff by blast
  then show ?thesis
    by (simp only: isSafe_wf9[OF assms])
qed

lemma occursElsewhere_own:
  assumes "wf9 b" "r < 9" "c < 9" "v \<noteq> w"
  shows "occursInGroups (putCell b r c w) r c v \<longleftrightarrow> occursElsewhere b r c v"
proof -
  have "\<And>i j. i < 9 \<Longrightarrow> j < 9 \<Longrightarrow>
      (putCell b r c w ! i ! j = v) = ((i, j) \<noteq> (r, c) \<and> b ! i ! j = v)"
    using assms by (auto simp: putCell_nth)
  then show ?thesis
    unfolding occursInGroups_iff occursElsewhere_iff by blast
qed

lemma occurs_split:
  assumes "r < 9" "c < 9"
  shows "occursInGroups b r c v \<longleftrightarrow> b ! r ! c = v \<or> occursElsewhere b r c v"
proof -
  have "related r c r c" by (simp add: related_def)
  then show ?thesis
    unfolding occursInGroups_iff occursElsewhere_iff using assms by blast
qed

text \<open>
  Claim C5 as stated fails: isSafe compares \<open>num\<close> with all nine cells of the row, all nine
  cells of the column and all nine cells of the box, the cell \<open>(row, col)\<close> among them.
  On the board whose only filled cell is \<open>(0, 0)\<close>, holding 5, the call
  \<^verbatim>\<open>isSafe(b, 0, 0, 5)\<close> returns false although 5 occurs in no other cell.
\<close>

theorem isSafe_own_cell_counterexample:
  "wf9 ownCellBoard \<and> isSafe ownCellBoard 0 0 (Num 5) = Inr False \<and>
   \<not> occursElsewhere ownCellBoard 0 0 (Num 5)"
  by code_simp

text \<open>
  Claim C5, amended: on a 9 by 9 board, for \<open>r\<close> and \<open>c\<close> in 0..8, isSafe returns false
  if and only if the digit occurs in the row \<open>r\<close>, the column \<open>c\<close> or the containing box,
  where the cell \<open>(r, c)\<close> itself counts too, and returns true otherwise.  When the cell
  \<open>(r, c)\<close> does not hold the digit (for instance because the caller has emptied it first,
  as checkWin does), this is the same as the digit occurring among the other cells.
  isSafe only reads the board: its model returns no board.
\<close>

theorem isSafe_counts_every_cell:
  "wf9 g \<Longrightarrow> r < 9 \<Longrightarrow> c < 9 \<Longrightarrow>
   isSafe g r c (Num d) = Inr (\<not> occursInGroups g r c (Num d)) \<and>
   (g ! r ! c \<noteq> Num d \<longrightarrow>
      (isSafe g r c (Num d) = Inr False \<longleftrightarrow> occursElsewhere g r c (Num d)))"
  by (simp add: isSafe_occurs occurs_split)

text \<open>
  The amended statement at a concrete input: the cell \<open>(0, 1)\<close> of the same board is empty
  and 5 occurs in its row.
\<close>

theorem isSafe_counts_every_cell_witness:
  "wf9 ownCellBoard \<and> (0::nat) < 9 \<and> (1::nat) < 9 \<and> ownCellBoard ! 0 ! 1 \<noteq> Num 5 \<and>
   isSafe ownCellBoard 0 1 (Num 5) = Inr False \<and> occursElsewhere ownCellBoard 0 1 (Num 5)"
proof -
  have w: "wf9 ownCellBoard" by code_simp
  have r: "(0::nat) < 9" and c: "(1::nat) < 9" by simp_all
  have n: "ownCellBoard ! 0 ! 1 \<noteq> Num 5" by code_simp
  have e: "occursElsewhere ownCellBoard 0 1 (Num 5)" by code_simp
  have "isSafe ownCellBoard 0 1 (Num 5) = Inr False"
    using isSafe_counts_every_cell[OF w r c, of 5] n e by blast
  with w n e show ?thesis by simp
qed

lemma checkCells_wf9:
  "wf9 g \<Longrightarrow> \<forall>(i, j) \<in> set ps. i < 9 \<and> j < 9 \<Longrightarrow>
   checkCells g ps =
     Inr (\<forall>(i, j) \<in> set ps. g ! i ! j \<noteq> Null \<and> \<not> occursElsewhere g i j (g ! i ! j))"
proof (induction ps)
  case Nil
  then show ?case by simp
next
  case (Cons p ps)
  obtain i j where p: "p = (i, j)" by (cases p)
  with Cons.prems have ij: "i < 9" "j < 9" by auto
  have tmp: "wf9 (putCell g i j Null)" using Cons.prems(1) by (simp add: wf9_putCell)
  have IH: "checkCells g ps =
     Inr (\<forall>(i, j) \<in> set ps. g ! i ! j \<noteq> Null \<and> \<not> occursElsewhere g i j (g ! i ! j))"
    using Cons by auto
  show ?case
    using Cons.prems(1) ij tmp
    by (simp add: p cellAt_wf9 setCell_wf9 isSafe_occurs occursElsewhere_own IH)
qed

lemma solveBody_full: "findEmpty b = Inr None \<Longrightarrow> solveBody rec b = Some (Inr (True, b))"
  by (simp add: solveBody_def)

lemma bex_allCells: "(\<exists>(i, j)\<in>set allCells. Q i j) \<longleftrightarrow> (\<exists>i<9. \<exists>j<9. Q i j)"
proof -
  have "(\<exists>(i, j)\<in>set allCells. Q i j) \<longleftrightarrow> (\<exists>i j. (i, j) \<in> set allCells \<and> Q i j)"
    by auto
  then show ?thesis unfolding in_allCells by blast
qed

lemma ball_allCells: "(\<forall>(i, j)\<in>set allCells. Q i j) \<longleftrightarrow> (\<forall>i<9. \<forall>j<9. Q i j)"
proof -
  have "(\<forall>(i, j)\<in>set allCells. Q i j) \<longleftrightarrow> (\<forall>i j. (i, j) \<in> set allCells \<longrightarrow> Q i j)"
    by auto
  then show ?thesis unfolding in_allCells by blast
qed

lemma hasEmpty_iff: "hasEmpty g \<longleftrightarrow> (\<exists>i<9. \<exists>j<9. g ! i ! j = Null)"
  unfolding hasEmpty_def list_ex_iff bex_allCells ..

lemma hasDuplicate_iff:
  "hasDuplicate g \<longleftrightarrow> (\<exists>i<9. \<exists>j<9. occursElsewhere g i j (g ! i ! j))"
  unfolding hasDuplicate_def list_ex_iff bex_allCells occursElsewhere_iff ..

text \<open>
  Claim C4: on a 9 by 9 board checkWin returns true if and only if every cell is non-empty
  and, for every cell, the board with that cell emptied has no occurrence of the cell's
  value in the cell's row, column or box.  In particular it returns false when a cell is
  empty, and when two different cells of one row, column or box hold the same value.
\<close>

theorem checkWin_iff:
  "wf9 g \<Longrightarrow>
   checkWin g = Inr ((\<forall>i<9. \<forall>j<9. g ! i ! j \<noteq> Null) \<and>
                     (\<forall>i<9. \<forall>j<9. \<not> occursInGroups (putCell g i j Null) i j (g ! i ! j))) \<and>
   (hasEmpty g \<longrightarrow> checkWin g = Inr False) \<and>
   (hasDuplicate g \<longrightarrow> checkWin g = Inr False)"
proof -
  assume w: "wf9 g"
  have c: "checkWin g =
     Inr (\<forall>(i, j) \<in> set allCells. g ! i ! j \<noteq> Null \<and> \<not> occursElsewhere g i j (g ! i ! j))"
    unfolding checkWin_def using w by (rule checkCells_wf9) (use in_allCells in auto)
  have a: "(\<forall>(i, j) \<in> set allCells. g ! i ! j \<noteq> Null \<and> \<not> occursElsewhere g i j (g ! i ! j)) \<longleftrightarrow>
        (\<forall>i<9. \<forall>j<9. g ! i ! j \<noteq> Null) \<and> (\<forall>i<9. \<forall>j<9. \<not> occursElsewhere g i j (g ! i ! j))"
    unfolding ball_allCells by blast
  have e: "\<And>i j. i < 9 \<Longrightarrow> j < 9 \<Longrightarrow> g ! i ! j \<noteq> Null \<Longrightarrow>
     occursInGroups (putCell g i j Null) i j (g ! i ! j) = occursElsewhere g i j (g ! i ! j)"
    using w by (rule occursElsewhere_own)
  have b: "(\<forall>i<9. \<forall>j<9. g ! i ! j \<noteq> Null) \<and> (\<forall>i<9. \<forall>j<9. \<not> occursElsewhere g i j (g ! i ! j)) \<longleftrightarrow>
        (\<forall>i<9. \<forall>j<9. g ! i ! j \<noteq> Null) \<and>
        (\<forall>i<9. \<forall>j<9. \<not> occursInGroups (putCell g i j Null) i j (g ! i ! j))"
    using e by blast
  have 1: "checkWin g = Inr ((\<forall>i<9. \<forall>j<9. g ! i ! j \<noteq> Null) \<and>
                     (\<forall>i<9. \<forall>j<9. \<not> occursInGroups (putCell g i j Null) i j (g ! i ! j)))"
    using c a b by simp
  have 2: "hasEmpty g \<longrightarrow> checkWin g = Inr False"
    unfolding hasEmpty_iff c a by blast
  have 3: "hasDuplicate g \<longrightarrow> checkWin g = Inr False"
    unfolding hasDuplicate_iff c a by blast
  from 1 2 3 show ?thesis by blast
qed

text \<open>
  Claim C9: on a board without empty cells solveSudoku returns true at once (no recursive
  call is needed: the budget \<open>d\<close> is arbitrary, 0 included) and leaves the board as it is,
  whether or not the board obeys the row, column and box constraints.
\<close>

theorem solveSudoku_full_board:
  "wf9 g \<Longrightarrow> \<not> hasEmpty g \<Longrightarrow> solveSudokuD d g = Some (Inr (True, g))"
proof -
  assume w: "wf9 g" and f: "\<not> hasEmpty g"
  then have "findEmpty g = Inr None"
    by (simp add: findEmpty_None hasEmpty_iff)
  then have "\<And>rec. solveBody rec g = Some (Inr (True, g))"
    by (rule solveBody_full)
  then show ?thesis by (cases d) simp_all
qed


text \<open>
  The board of 81 ones is full and illegal (checkWin rejects it), and solveSudoku
  returns true on it.
\<close>

theorem solveSudoku_full_board_witness:
  "wf9 allOnesBoard \<and> \<not> hasEmpty allOnesBoard \<and> hasDuplicate allOnesBoard \<and>
   checkWin allOnesBoard = Inr False \<and>
   solveSudokuD 0 allOnesBoard = Some (Inr (True, allOnesBoard))"
proof -
  have w: "wf9 allOnesBoard" by code_simp
  have f: "\<not> hasEmpty allOnesBoard" by code_simp
  have d: "hasDuplicate allOnesBoard" by code_simp
  have c: "checkWin allOnesBoard = Inr False" by code_simp
  from solveSudoku_full_board[OF w f, of 0] w f d c show ?thesis by simp
qed

lemma related_sym: "related r c i j \<longleftrightarrow> related i j r c"
  unfolding related_def by auto

lemma putCell_restore:
  assumes "wf9 b" "r < 9" "c < 9" "b ! r ! c = Null"
  shows "putCell (putCell b r c v) r c Null = b"
proof -
  have r: "r < length b" using assms by (simp add: wf9_length)
  have c: "c < length (b ! r)" using assms by (simp add: wf9_row)
  have "(b ! r)[c := Null] = b ! r"
    using c assms(4) by (simp add: list_update_same_conv)
  then show ?thesis
    using r by (simp add: putCell_def)
qed

lemma distinct_allCells: "distinct allCells"
  by code_simp

lemma length_allCells: "length allCells = 81"
  by code_simp

lemma emptyCount_card:
  "emptyCount b = card {(i, j). i < 9 \<and> j < 9 \<and> b ! i ! j = Null}"
proof -
  have "{x. (\<lambda>(i, j). b ! i ! j = Null) x} \<inter> set allCells =
        {(i, j). i < 9 \<and> j < 9 \<and> b ! i ! j = Null}"
    using in_allCells by auto
  then show ?thesis
    unfolding emptyCount_def using distinct_length_filter[OF distinct_allCells] by simp
qed

lemma finite_cells: "finite {(i, j). i < (9::nat) \<and> j < (9::nat) \<and> P i j}"
proof -
  have "{(i, j). i < (9::nat) \<and> j < (9::nat) \<and> P i j} \<subseteq> {..<9} \<times> {..<9}" by auto
  then show ?thesis by (rule finite_subset) simp
qed

lemma emptyCount_le: "emptyCount b \<le> 81"
  unfolding emptyCount_def using length_filter_le[of _ allCells] length_allCells by metis

lemma emptyCount_putCell:
  assumes "wf9 b" "r < 9" "c < 9" "b ! r ! c = Null" "v \<noteq> Null"
  shows "emptyCount (putCell b r c v) < emptyCount b"
proof -
  let ?A = "{(i, j). i < 9 \<and> j < 9 \<and> putCell b r c v ! i ! j = Null}"
  let ?B = "{(i, j). i < 9 \<and> j < 9 \<and> b ! i ! j = Null}"
  have "?A \<subseteq> ?B"
    using assms by (auto simp: putCell_nth split: if_splits)
  moreover have "(r, c) \<in> ?B" using assms by simp
  moreover have "(r, c) \<notin> ?A" using assms by (simp add: putCell_nth)
  ultimately have "?A \<subset> ?B" by blast
  then have "card ?A < card ?B"
    using finite_cells by (intro psubset_card_mono) 
  then show ?thesis
    by (simp only: emptyCount_card)
qed

lemma emptyCount_0: "emptyCount b = 0 \<longleftrightarrow> \<not> hasEmpty b"
  unfolding emptyCount_def hasEmpty_def list_ex_iff
  by (simp add: filter_empty_conv)

lemma consistent_putCell:
  assumes con: "consistent b" and rc: "r < 9" "c < 9" and n: "1 \<le> n" "n \<le> 9"
    and safe: "\<not> occursInGroups b r c (Num n)"
  shows "consistent (putCell b r c (Num n))"
proof -
  let ?b1 = "putCell b r c (Num n)"
  have w: "wf9 b" using con by (simp add: consistent_def)
  have w1: "wf9 ?b1" using w by (simp add: wf9_putCell)
  have nth: "\<And>i j. i < 9 \<Longrightarrow> j < 9 \<Longrightarrow> ?b1 ! i ! j = (if i = r \<and> j = c then Num n else b ! i ! j)"
    using w rc by (simp add: putCell_nth)
  have nocc: "\<And>i j. i < 9 \<Longrightarrow> j < 9 \<Longrightarrow> related r c i j \<Longrightarrow> b ! i ! j \<noteq> Num n"
    using safe unfolding occursInGroups_iff by blast
  have old: "\<And>i j i' j'. i < 9 \<Longrightarrow> j < 9 \<Longrightarrow> i' < 9 \<Longrightarrow> j' < 9 \<Longrightarrow> b ! i ! j \<noteq> Null \<Longrightarrow>
        related i j i' j' \<Longrightarrow> (i', j') \<noteq> (i, j) \<Longrightarrow> b ! i' ! j' \<noteq> b ! i ! j"
    using con unfolding consistent_def occursElsewhere_iff by blast
  have rng: "\<And>i j. i < 9 \<Longrightarrow> j < 9 \<Longrightarrow> b ! i ! j \<noteq> Null \<Longrightarrow> \<exists>m. 1 \<le> m \<and> m \<le> 9 \<and> b ! i ! j = Num m"
    using con unfolding consistent_def by blast
  have "\<exists>m. 1 \<le> m \<and> m \<le> 9 \<and> ?b1 ! i ! j = Num m" if "i < 9" "j < 9" "?b1 ! i ! j \<noteq> Null" for i j
  proof (cases "i = r \<and> j = c")
    case True
    then show ?thesis using n that nth by auto
  next
    case False
    then show ?thesis using that nth[of i j] rng[of i j] by auto
  qed
  moreover have "\<not> occursElsewhere ?b1 i j (?b1 ! i ! j)" if ij: "i < 9" "j < 9" "?b1 ! i ! j \<noteq> Null" for i j
  proof
    assume "occursElsewhere ?b1 i j (?b1 ! i ! j)"
    then obtain i' j' where o: "i' < 9" "j' < 9" "related i j i' j'" "(i', j') \<noteq> (i, j)"
        "?b1 ! i' ! j' = ?b1 ! i ! j"
      unfolding occursElsewhere_iff by blast
    show False
    proof (cases "i = r \<and> j = c")
      case True
      then have "(i', j') \<noteq> (r, c)" "related r c i' j'" using o by auto
      then have "b ! i' ! j' = Num n" using o True nth[of i' j'] nth[of i j] ij by auto
      then show False using nocc[of i' j'] o \<open>related r c i' j'\<close> by simp
    next
      case False
      then have v: "?b1 ! i ! j = b ! i ! j" using nth[of i j] ij by auto
      show False
      proof (cases "i' = r \<and> j' = c")
        case True
        then have "b ! i ! j = Num n" using o nth[of i' j'] v by auto
        moreover have "related r c i j" using o True related_sym[of i j r c] by simp
        ultimately show False using nocc[of i j] ij by simp
      next
        case False
        then have "b ! i' ! j' = b ! i ! j" using o nth[of i' j'] v by auto
        then show False using old[of i j i' j'] ij o v by auto
      qed
    qed
  qed
  ultimately show ?thesis
    using w1 unfolding consistent_def by blast
qed

lemma tryNums_ok:
  assumes R: "recOK rec" and w: "wf9 b" and rc: "r < 9" "c < 9" and e: "b ! r ! c = Null"
  shows "\<forall>n\<in>set nums. 1 \<le> n \<and> n \<le> 9 \<Longrightarrow> tryNums rec b r c nums = Some res \<Longrightarrow>
         \<exists>ok b2. res = Inr (ok, b2) \<and> wf9 b2 \<and> (\<not> ok \<longrightarrow> b2 = b) \<and>
           (ok \<longrightarrow> \<not> hasEmpty b2 \<and> (consistent b \<longrightarrow> consistent b2))"
proof (induction nums)
  case Nil
  then show ?case using w by auto
next
  case (Cons n nums)
  let ?b1 = "putCell b r c (Num n)"
  have n: "1 \<le> n" "n \<le> 9" using Cons.prems(1) by auto
  have rest: "\<forall>n\<in>set nums. 1 \<le> n \<and> n \<le> 9" using Cons.prems(1) by auto
  have safe: "isSafe b r c (Num n) = Inr (\<not> occursInGroups b r c (Num n))"
    using w rc by (rule isSafe_occurs)
  have set1: "setCell b r c (Num n) = Inr ?b1" using w rc by (rule setCell_wf9)
  have w1: "wf9 ?b1" using w by (simp add: wf9_putCell)
  have rst: "setCell ?b1 r c Null = Inr b"
    using setCell_wf9[OF w1 rc, of Null] putCell_restore[OF w rc e, of "Num n"] by simp
  show ?case
  proof (cases "occursInGroups b r c (Num n)")
    case True
    then have "tryNums rec b r c (n # nums) = tryNums rec b r c nums"
      using safe by simp
    then show ?thesis using Cons.IH[OF rest] Cons.prems(2) by simp
  next
    case False
    show ?thesis
    proof (cases "rec ?b1")
      case None
      then have "tryNums rec b r c (n # nums) = None"
        using safe False set1 by simp
      then show ?thesis using Cons.prems(2) by simp
    next
      case (Some x)
      then obtain ok b2 where x: "x = Inr (ok, b2)" "wf9 b2" "\<not> ok \<longrightarrow> b2 = ?b1"
          "ok \<longrightarrow> \<not> hasEmpty b2 \<and> (consistent ?b1 \<longrightarrow> consistent b2)"
        using R w1 unfolding recOK_def by blast
      show ?thesis
      proof (cases ok)
        case True
        then have "tryNums rec b r c (n # nums) = Some (Inr (True, b2))"
          using safe False set1 Some x(1) by simp
        then have "res = Inr (True, b2)" using Cons.prems(2) by simp
        moreover have "consistent b \<longrightarrow> consistent b2"
          using x(4) True consistent_putCell[OF _ rc n False] by blast
        ultimately show ?thesis using x True by blast
      next
        case False
        then have "b2 = ?b1" using x by simp
        then have "tryNums rec b r c (n # nums) = tryNums rec b r c nums"
          using safe \<open>\<not> occursInGroups b r c (Num n)\<close> set1 Some x(1) False rst by simp
        then show ?thesis using Cons.IH[OF rest] Cons.prems(2) by simp
      qed
    qed
  qed
qed

lemma recOK_solveBody:
  assumes "recOK rec"
  shows "recOK (solveBody rec)"
  unfolding recOK_def
proof (intro allI impI)
  fix b res
  assume w: "wf9 b" and s: "solveBody rec b = Some res"
  show "\<exists>ok b2. res = Inr (ok, b2) \<and> wf9 b2 \<and> (\<not> ok \<longrightarrow> b2 = b) \<and>
           (ok \<longrightarrow> \<not> hasEmpty b2 \<and> (consistent b \<longrightarrow> consistent b2))"
  proof (cases "find (\<lambda>(i, j). b ! i ! j = Null) allCells")
    case None
    then have f: "findEmpty b = Inr None" using w by (simp add: findEmpty_wf9)
    then have "res = Inr (True, b)" using s by (simp add: solveBody_full)
    moreover have "\<not> hasEmpty b" using f w by (simp add: findEmpty_None hasEmpty_iff)
    ultimately show ?thesis using w by blast
  next
    case (Some p)
    obtain r c where p: "p = (r, c)" by (cases p)
    have f: "findEmpty b = Inr (Some (r, c))" using w Some p by (simp add: findEmpty_wf9)
    then have rc: "r < 9" "c < 9" "b ! r ! c = Null" using findEmpty_Some[OF w] by auto
    have "tryNums rec b r c [1..<10] = Some res"
      using s f by (simp add: solveBody_def)
    moreover have "\<forall>n\<in>set [1..<10]. 1 \<le> n \<and> n \<le> 9" by auto
    ultimately show ?thesis
      using tryNums_ok[OF assms w rc] by blast
  qed
qed

lemma recOK_solveSudokuD: "recOK (solveSudokuD d)"
proof (induction d)
  case 0
  have "recOK (\<lambda>b1. None)" by (simp add: recOK_def)
  then have "recOK (solveBody (\<lambda>b1. None))" by (rule recOK_solveBody)
  then show ?case unfolding recOK_def by simp
next
  case (Suc d)
  then have "recOK (solveBody (solveSudokuD d))" by (rule recOK_solveBody)
  then show ?case unfolding recOK_def by simp
qed

lemma tryNums_total:
  assumes R: "recOK rec"
    and sub: "\<And>b1. wf9 b1 \<Longrightarrow> emptyCount b1 < emptyCount b \<Longrightarrow> rec b1 \<noteq> None"
    and w: "wf9 b" and rc: "r < 9" "c < 9" and e: "b ! r ! c = Null"
  shows "tryNums rec b r c nums \<noteq> None"
proof (induction nums)
  case Nil
  then show ?case by simp
next
  case (Cons n nums)
  let ?b1 = "putCell b r c (Num n)"
  have safe: "isSafe b r c (Num n) = Inr (\<not> occursInGroups b r c (Num n))"
    using w rc by (rule isSafe_occurs)
  have set1: "setCell b r c (Num n) = Inr ?b1" using w rc by (rule setCell_wf9)
  have w1: "wf9 ?b1" using w by (simp add: wf9_putCell)
  have rst: "setCell ?b1 r c Null = Inr b"
    using setCell_wf9[OF w1 rc, of Null] putCell_restore[OF w rc e, of "Num n"] by simp
  have "emptyCount ?b1 < emptyCount b"
    using w rc e by (rule emptyCount_putCell) simp
  then obtain x where x: "rec ?b1 = Some x" using sub[OF w1] by auto
  then obtain ok b2 where x2: "x = Inr (ok, b2)" "\<not> ok \<longrightarrow> b2 = ?b1"
    using R w1 unfolding recOK_def by blast
  show ?case
  proof (cases "occursInGroups b r c (Num n)")
    case True
    then show ?thesis using safe Cons.IH by simp
  next
    case False
    show ?thesis
    proof (cases ok)
      case True
      then show ?thesis using safe False set1 x x2 by simp
    next
      case no: False
      then have "b2 = ?b1" using x2 by simp
      then show ?thesis using safe False set1 x x2 no rst Cons.IH by simp
    qed
  qed
qed

lemma solveSudokuD_total: "wf9 b \<Longrightarrow> emptyCount b \<le> d \<Longrightarrow> solveSudokuD d b \<noteq> None"
proof (induction d arbitrary: b)
  case 0
  then have "findEmpty b = Inr None"
    by (simp add: emptyCount_0 findEmpty_None hasEmpty_iff)
  then show ?case by (simp add: solveBody_full)
next
  case (Suc d)
  show ?case
  proof (cases "find (\<lambda>(i, j). b ! i ! j = Null) allCells")
    case None
    then have "findEmpty b = Inr None" using Suc.prems(1) by (simp add: findEmpty_wf9)
    then show ?thesis by (simp add: solveBody_full)
  next
    case (Some p)
    obtain r c where p: "p = (r, c)" by (cases p)
    have f: "findEmpty b = Inr (Some (r, c))"
      using Suc.prems(1) Some p by (simp add: findEmpty_wf9)
    then have rc: "r < 9" "c < 9" "b ! r ! c = Null"
      using findEmpty_Some[OF Suc.prems(1)] by auto
    have "tryNums (solveSudokuD d) b r c [1..<10] \<noteq> None"
    proof (rule tryNums_total[OF recOK_solveSudokuD _ Suc.prems(1) rc])
      fix b1 assume "wf9 b1" "emptyCount b1 < emptyCount b"
      then show "solveSudokuD d b1 \<noteq> None"
        using Suc.IH[of b1] Suc.prems(2) by simp
    qed
    then show ?thesis using f by (simp add: solveBody_def)
  qed
qed

lemma tryNums_mono:
  assumes "\<And>b1 x. rec b1 = Some x \<Longrightarrow> rec' b1 = Some x"
  shows "tryNums rec b r c nums = Some res \<Longrightarrow> tryNums rec' b r c nums = Some res"
proof (induction nums arbitrary: b)
  case Nil
  then show ?case by simp
next
  case (Cons n nums)
  then show ?case
    using assms
    by (auto split: sum.splits if_splits option.splits prod.splits)
qed

lemma solveBody_mono:
  assumes "\<And>b1 x. rec b1 = Some x \<Longrightarrow> rec' b1 = Some x"
  shows "solveBody rec b = Some res \<Longrightarrow> solveBody rec' b = Some res"
  unfolding solveBody_def using tryNums_mono[of rec rec', OF assms]
  by (auto split: sum.splits option.splits)

lemma solveSudokuD_Suc: "solveSudokuD d b = Some res \<Longrightarrow> solveSudokuD (Suc d) b = Some res"
proof (induction d arbitrary: b res)
  case 0
  then show ?case using solveBody_mono[of "\<lambda>b1. None" "solveSudokuD 0" b res] by simp
next
  case (Suc d)
  then show ?case
    using solveBody_mono[of "solveSudokuD d" "solveSudokuD (Suc d)" b res] by simp
qed

lemma solveSudokuD_add:
  "solveSudokuD d b = Some res \<Longrightarrow> solveSudokuD (d + k) b = Some res"
proof (induction k)
  case 0
  then show ?case by simp
next
  case (Suc k)
  then have "solveSudokuD (Suc (d + k)) b = Some res" by (intro solveSudokuD_Suc) simp
  then show ?case by (simp del: solveSudokuD.simps)
qed

lemma solveSudokuD_mono:
  "solveSudokuD d b = Some res \<Longrightarrow> d \<le> d' \<Longrightarrow> solveSudokuD d' b = Some res"
  using solveSudokuD_add[of d b res "d' - d"] by simp

lemma tryNums_fewer:
  assumes R: "recOK rec"
    and eq: "\<And>b1. emptyCount b1 < emptyCount b \<Longrightarrow> rec' b1 = rec b1"
    and w: "wf9 b" and rc: "r < 9" "c < 9" and e: "b ! r ! c = Null"
  shows "tryNums rec' b r c nums = tryNums rec b r c nums"
proof (induction nums)
  case Nil
  then show ?case by simp
next
  case (Cons n nums)
  let ?b1 = "putCell b r c (Num n)"
  have safe: "isSafe b r c (Num n) = Inr (\<not> occursInGroups b r c (Num n))"
    using w rc by (rule isSafe_occurs)
  have set1: "setCell b r c (Num n) = Inr ?b1" using w rc by (rule setCell_wf9)
  have w1: "wf9 ?b1" using w by (simp add: wf9_putCell)
  have rst: "setCell ?b1 r c Null = Inr b"
    using setCell_wf9[OF w1 rc, of Null] putCell_restore[OF w rc e, of "Num n"] by simp
  have "emptyCount ?b1 < emptyCount b"
    using w rc e by (rule emptyCount_putCell) simp
  then have same: "rec' ?b1 = rec ?b1" by (rule eq)
  show ?case
  proof (cases "occursInGroups b r c (Num n)")
    case True
    then show ?thesis using safe Cons.IH by simp
  next
    case False
    show ?thesis
    proof (cases "rec ?b1")
      case None
      then show ?thesis using safe False set1 same by simp
    next
      case (Some x)
      then obtain ok b2 where x2: "x = Inr (ok, b2)" "\<not> ok \<longrightarrow> b2 = ?b1"
        using R w1 unfolding recOK_def by blast
      show ?thesis
      proof (cases ok)
        case True
        then show ?thesis using safe False set1 same Some x2 by simp
      next
        case no: False
        then have "b2 = ?b1" using x2 by simp
        then show ?thesis using safe False set1 same Some x2 no rst Cons.IH by simp
      qed
    qed
  qed
qed

lemma solveBody_fewer:
  assumes "recOK rec" "wf9 b"
  shows "solveBody (\<lambda>b1. if emptyCount b1 < emptyCount b then rec b1 else None) b = solveBody rec b"
proof (cases "find (\<lambda>(i, j). b ! i ! j = Null) allCells")
  case None
  then have "findEmpty b = Inr None" using assms(2) by (simp add: findEmpty_wf9)
  then show ?thesis by (simp add: solveBody_full)
next
  case (Some p)
  obtain r c where p: "p = (r, c)" by (cases p)
  have f: "findEmpty b = Inr (Some (r, c))"
    using assms(2) Some p by (simp add: findEmpty_wf9)
  then have rc: "r < 9" "c < 9" "b ! r ! c = Null"
    using findEmpty_Some[OF assms(2)] by auto
  have "tryNums (\<lambda>b1. if emptyCount b1 < emptyCount b then rec b1 else None) b r c [1..<10] =
        tryNums rec b r c [1..<10]"
    by (rule tryNums_fewer[OF assms(1) _ assms(2) rc]) simp
  then show ?thesis using f by (simp add: solveBody_def)
qed

text \<open>
  Claim C3: on a 9 by 9 board solveSudoku returns a boolean (it does not throw), and when
  it returns false the board is exactly the board of the call.  The second part says the
  same of the call at any nesting budget, hence of every recursive call of the search.
\<close>

theorem solveSudoku_failure_restores:
  "wf9 g \<Longrightarrow>
   (\<exists>ok g'. solveSudoku g = Some (Inr (ok, g')) \<and> (\<not> ok \<longrightarrow> g' = g)) \<and>
   (\<forall>d res. solveSudokuD d g = Some res \<longrightarrow> (\<exists>ok g'. res = Inr (ok, g') \<and> (\<not> ok \<longrightarrow> g' = g)))"
proof -
  assume w: "wf9 g"
  have all: "\<exists>ok g'. res = Inr (ok, g') \<and> (\<not> ok \<longrightarrow> g' = g)" if "solveSudokuD d g = Some res" for d res
    using recOK_solveSudokuD[of d] w that unfolding recOK_def by blast
  have "solveSudokuD 81 g \<noteq> None"
    using w emptyCount_le by (rule solveSudokuD_total)
  then obtain res where "solveSudokuD 81 g = Some res" by blast
  then have "\<exists>ok g'. solveSudoku g = Some (Inr (ok, g')) \<and> (\<not> ok \<longrightarrow> g' = g)"
    using all[of 81 res] unfolding solveSudoku_def by blast
  then show ?thesis using all by blast
qed

text \<open>
  A board on which the search places 8 and then 9 in the first cell, fails for the second
  cell both times, undoes both placements and returns false.
\<close>

theorem solveSudoku_failure_restores_witness:
  "wf9 undoBoard \<and> solveSudoku undoBoard = Some (Inr (False, undoBoard))"
proof -
  have w: "wf9 undoBoard" by code_simp
  have f: "map_option (map_sum id fst) (solveSudoku undoBoard) = Some (Inr False)"
    by code_simp
  obtain ok g' where r: "solveSudoku undoBoard = Some (Inr (ok, g'))" "\<not> ok \<longrightarrow> g' = undoBoard"
    using solveSudoku_failure_restores[OF w] by blast
  then have "\<not> ok" using f by simp
  then show ?thesis using w r by simp
qed

text \<open>
  Claim C8: solveSudoku terminates on every 9 by 9 board, with recursive calls nested at
  most as deep as the board has empty cells, hence at most 81 deep.  The last part says that
  every recursive call is made on a board with strictly fewer empty cells: a recursive call
  that refuses every other board gives the same run.
\<close>

theorem solveSudoku_depth_bound:
  "wf9 g \<Longrightarrow>
   emptyCount g \<le> 81 \<and>
   (\<forall>d. emptyCount g \<le> d \<longrightarrow> (\<exists>ok g'. solveSudokuD d g = Some (Inr (ok, g')))) \<and>
   (\<exists>ok g'. solveSudoku g = Some (Inr (ok, g'))) \<and>
   (\<forall>d. solveSudokuD (Suc d) g =
         solveBody (\<lambda>g1. if emptyCount g1 < emptyCount g then solveSudokuD d g1 else None) g)"
proof -
  assume w: "wf9 g"
  have noerr: "\<exists>ok g'. res = Inr (ok, g')" if "solveSudokuD d g = Some res" for d res
    using recOK_solveSudokuD[of d] w that unfolding recOK_def by blast
  have tot: "\<exists>ok g'. solveSudokuD d g = Some (Inr (ok, g'))" if "emptyCount g \<le> d" for d
  proof -
    have "solveSudokuD d g \<noteq> None" using w that by (rule solveSudokuD_total)
    then obtain res where "solveSudokuD d g = Some res" by blast
    then show ?thesis using noerr by blast
  qed
  have "\<exists>ok g'. solveSudoku g = Some (Inr (ok, g'))"
    unfolding solveSudoku_def using tot[of 81] emptyCount_le by blast
  moreover have "solveSudokuD (Suc d) g =
         solveBody (\<lambda>g1. if emptyCount g1 < emptyCount g then solveSudokuD d g1 else None) g" for d
    using solveBody_fewer[OF recOK_solveSudokuD w, of d] by simp
  ultimately show ?thesis using tot emptyCount_le by blast
qed

text \<open>
  A board with 72 empty cells: the budget 72 is enough.
\<close>

theorem solveSudoku_depth_bound_witness:
  "wf9 undoBoard \<and> emptyCount undoBoard = 72 \<and>
   (\<exists>ok g'. solveSudokuD 72 undoBoard = Some (Inr (ok, g')))"
proof -
  have w: "wf9 undoBoard" by code_simp
  have e: "emptyCount undoBoard = 72" by code_simp
  have "\<forall>d. emptyCount undoBoard \<le> d \<longrightarrow> (\<exists>ok g'. solveSudokuD d undoBoard = Some (Inr (ok, g')))"
    using solveSudoku_depth_bound[OF w] by blast
  then show ?thesis using w e by simp
qed

text \<open>
  The search is complete: in the cell the solver fills next, the digit of a legal completion
  is safe, and the board with that digit placed has the same completion; so the loop over
  1..9 cannot fail before it reaches this digit, and on reaching it the recursive call
  succeeds.
\<close>

lemma completes_safe:
  assumes comp: "completes s b" and w: "wf9 b" and rc: "r < 9" "c < 9" and e: "b ! r ! c = Null"
  shows "\<not> occursInGroups b r c (s ! r ! c)"
proof
  assume "occursInGroups b r c (s ! r ! c)"
  then obtain i j where o: "i < 9" "j < 9" "related r c i j" "b ! i ! j = s ! r ! c"
    unfolding occursInGroups_iff by blast
  have sn: "s ! r ! c \<noteq> Null" using comp rc unfolding completes_def hasEmpty_iff by blast
  then have "s ! i ! j = s ! r ! c" using comp o unfolding completes_def by auto
  moreover have "(i, j) \<noteq> (r, c)" using o(4) e sn by auto
  ultimately have "occursElsewhere s r c (s ! r ! c)"
    unfolding occursElsewhere_iff using o by blast
  then show False using comp rc sn unfolding completes_def consistent_def by blast
qed

lemma completes_putCell:
  assumes "completes s b" "wf9 b" "r < 9" "c < 9"
  shows "completes s (putCell b r c (s ! r ! c))"
  using assms unfolding completes_def by (auto simp: putCell_nth)

lemma tryNums_complete:
  assumes R: "recOK rec" and w: "wf9 b" and rc: "r < 9" "c < 9" and e: "b ! r ! c = Null"
    and comp: "completes s b" and sn: "s ! r ! c = Num n"
    and sub: "\<And>b1. wf9 b1 \<Longrightarrow> emptyCount b1 < emptyCount b \<Longrightarrow> completes s b1 \<Longrightarrow>
                \<exists>b2. rec b1 = Some (Inr (True, b2))"
    and tot: "\<And>b1. wf9 b1 \<Longrightarrow> emptyCount b1 < emptyCount b \<Longrightarrow> rec b1 \<noteq> None"
  shows "n \<in> set nums \<Longrightarrow> \<exists>b2. tryNums rec b r c nums = Some (Inr (True, b2))"
proof (induction nums)
  case Nil
  then show ?case by simp
next
  case (Cons m nums)
  let ?b1 = "putCell b r c (Num m)"
  have safe: "isSafe b r c (Num m) = Inr (\<not> occursInGroups b r c (Num m))"
    using w rc by (rule isSafe_occurs)
  have set1: "setCell b r c (Num m) = Inr ?b1" using w rc by (rule setCell_wf9)
  have w1: "wf9 ?b1" using w by (simp add: wf9_putCell)
  have rst: "setCell ?b1 r c Null = Inr b"
    using setCell_wf9[OF w1 rc, of Null] putCell_restore[OF w rc e, of "Num m"] by simp
  have less: "emptyCount ?b1 < emptyCount b"
    using w rc e by (rule emptyCount_putCell) simp
  have nsafe: "\<not> occursInGroups b r c (Num n)"
    using completes_safe[OF comp w rc e] sn by simp
  show ?case
  proof (cases "occursInGroups b r c (Num m)")
    case True
    then have "m \<noteq> n" using nsafe by auto
    then have "n \<in> set nums" using Cons.prems by simp
    then show ?thesis using Cons.IH safe True by simp
  next
    case False
    obtain x where x: "rec ?b1 = Some x" using tot[OF w1 less] by auto
    then obtain ok b2 where x2: "x = Inr (ok, b2)" "\<not> ok \<longrightarrow> b2 = ?b1"
      using R w1 unfolding recOK_def by blast
    show ?thesis
    proof (cases ok)
      case True
      then show ?thesis using safe False set1 x x2 by simp
    next
      case no: False
      have "m \<noteq> n"
      proof
        assume "m = n"
        then have "completes s ?b1" using completes_putCell[OF comp w rc] sn by simp
        then obtain b3 where "rec ?b1 = Some (Inr (True, b3))" using sub[OF w1 less] by blast
        then show False using x x2 no by simp
      qed
      then have "n \<in> set nums" using Cons.prems by simp
      moreover have "b2 = ?b1" using x2 no by simp
      ultimately show ?thesis using Cons.IH safe False set1 x x2 no rst by simp
    qed
  qed
qed

lemma solveSudokuD_complete:
  "wf9 b \<Longrightarrow> completes s b \<Longrightarrow> emptyCount b \<le> d \<Longrightarrow>
   \<exists>b2. solveSudokuD d b = Some (Inr (True, b2))"
proof (induction d arbitrary: b)
  case 0
  then have "findEmpty b = Inr None"
    by (simp add: emptyCount_0 findEmpty_None hasEmpty_iff)
  then show ?case by (simp add: solveBody_full)
next
  case (Suc d)
  show ?case
  proof (cases "find (\<lambda>(i, j). b ! i ! j = Null) allCells")
    case None
    then have "findEmpty b = Inr None" using Suc.prems(1) by (simp add: findEmpty_wf9)
    then show ?thesis by (simp add: solveBody_full)
  next
    case (Some p)
    obtain r c where p: "p = (r, c)" by (cases p)
    have f: "findEmpty b = Inr (Some (r, c))"
      using Suc.prems(1) Some p by (simp add: findEmpty_wf9)
    then have rc: "r < 9" "c < 9" and e: "b ! r ! c = Null"
      using findEmpty_Some[OF Suc.prems(1)] by auto
    have "s ! r ! c \<noteq> Null" using Suc.prems(2) rc unfolding completes_def hasEmpty_iff by blast
    then obtain n where n: "1 \<le> n" "n \<le> 9" "s ! r ! c = Num n"
      using Suc.prems(2) rc unfolding completes_def consistent_def by blast
    have "\<exists>b2. tryNums (solveSudokuD d) b r c [1..<10] = Some (Inr (True, b2))"
    proof (rule tryNums_complete[OF recOK_solveSudokuD Suc.prems(1) rc e Suc.prems(2) n(3)])
      fix b1 assume "wf9 b1" "emptyCount b1 < emptyCount b" "completes s b1"
      then show "\<exists>b2. solveSudokuD d b1 = Some (Inr (True, b2))"
        using Suc.IH[of b1] Suc.prems(3) by simp
    next
      fix b1 assume "wf9 b1" "emptyCount b1 < emptyCount b"
      then show "solveSudokuD d b1 \<noteq> None"
        using solveSudokuD_total[of b1 d] Suc.prems(3) by simp
    next
      show "n \<in> set [1..<10]" using n by simp
    qed
    then show ?thesis using f by (simp add: solveBody_def)
  qed
qed

text \<open>
  Whenever a board has a legal completion, \<^verbatim>\<open>solveSudoku\<close> returns true on it.
\<close>

lemma solveSudoku_complete:
  "wf9 b \<Longrightarrow> completes s b \<Longrightarrow> \<exists>b2. solveSudoku b = Some (Inr (True, b2))"
  unfolding solveSudoku_def using solveSudokuD_complete[of b s 81] emptyCount_le by blast

lemma filledCount_card:
  "filledCount b = card {(i, j). i < 9 \<and> j < 9 \<and> b ! i ! j \<noteq> Null}"
proof -
  have "{x. (\<lambda>(i, j). b ! i ! j \<noteq> Null) x} \<inter> set allCells =
        {(i, j). i < 9 \<and> j < 9 \<and> b ! i ! j \<noteq> Null}"
    using in_allCells by auto
  then show ?thesis
    unfolding filledCount_def using distinct_length_filter[OF distinct_allCells] by simp
qed

lemma filled_plus_empty: "filledCount b + emptyCount b = 81"
proof -
  have "(\<lambda>x. \<not> (case x of (i, j) \<Rightarrow> b ! i ! j \<noteq> Null)) = (\<lambda>(i, j). b ! i ! j = Null)"
    by (auto simp: fun_eq_iff)
  then show ?thesis
    unfolding filledCount_def emptyCount_def
    using sum_length_filter_compl[of "\<lambda>(i, j). b ! i ! j \<noteq> Null" allCells] length_allCells
    by simp
qed

lemma filledCount_full: "\<not> hasEmpty b \<Longrightarrow> filledCount b = 81"
  using filled_plus_empty[of b] emptyCount_0[of b] by simp

lemma filledCount_put_le:
  assumes "wf9 b" "i < 9" "j < 9"
  shows "filledCount (putCell b i j v) \<le> Suc (filledCount b)"
proof -
  let ?A = "{(i', j'). i' < 9 \<and> j' < 9 \<and> putCell b i j v ! i' ! j' \<noteq> Null}"
  let ?B = "{(i', j'). i' < 9 \<and> j' < 9 \<and> b ! i' ! j' \<noteq> Null}"
  have "?A \<subseteq> insert (i, j) ?B"
    using assms by (auto simp: putCell_nth split: if_splits)
  then have "card ?A \<le> card (insert (i, j) ?B)"
    using finite_cells by (intro card_mono) auto
  also have "\<dots> \<le> Suc (card ?B)" by (simp add: card_insert_if finite_cells)
  finally show ?thesis by (simp only: filledCount_card)
qed

lemma filledCount_clear:
  assumes "wf9 b" "i < 9" "j < 9" "b ! i ! j \<noteq> Null"
  shows "Suc (filledCount (putCell b i j Null)) = filledCount b"
proof -
  let ?A = "{(i', j'). i' < 9 \<and> j' < 9 \<and> putCell b i j Null ! i' ! j' \<noteq> Null}"
  let ?B = "{(i', j'). i' < 9 \<and> j' < 9 \<and> b ! i' ! j' \<noteq> Null}"
  have eq: "?A = ?B - {(i, j)}"
    using assms by (auto simp: putCell_nth split: if_splits)
  have "finite ?B" by (rule finite_cells)
  moreover have "(i, j) \<in> ?B" using assms by simp
  ultimately have "Suc (card (?B - {(i, j)})) = card ?B"
    by (rule card_Suc_Diff1)
  then show ?thesis by (simp only: filledCount_card eq)
qed

lemma isSafeInBox_wf9:
  assumes "wf9 b" "s + 3 \<le> 9"
  shows "isSafeInBox b s s v =
         Inr (\<forall>i j. s \<le> i \<and> i < s + 3 \<and> s \<le> j \<and> j < s + 3 \<longrightarrow> b ! i ! j \<noteq> v)"
proof -
  have "scan b (boxCells s s) v = Inr (\<forall>(i, j) \<in> set (boxCells s s). b ! i ! j \<noteq> v)"
    using assms(1) by (rule scan_wf9) (use assms(2) in_boxCells in auto)
  also have "(\<forall>(i, j) \<in> set (boxCells s s). b ! i ! j \<noteq> v) \<longleftrightarrow>
             (\<forall>i j. s \<le> i \<and> i < s + 3 \<and> s \<le> j \<and> j < s + 3 \<longrightarrow> b ! i ! j \<noteq> v)"
    using in_boxCells[of _ _ s s] by blast
  finally show ?thesis unfolding isSafeInBox_def .
qed

lemma drawNum_ok:
  assumes "wf9 b" "s + 3 \<le> 9"
  shows "drawsInRange rs \<Longrightarrow> drawNum b s rs = Some res \<Longrightarrow>
     \<exists>num rs'. res = Inr (num, rs') \<and> 1 \<le> num \<and> num \<le> 9 \<and> drawsInRange rs' \<and>
        (\<forall>i j. s \<le> i \<and> i < s + 3 \<and> s \<le> j \<and> j < s + 3 \<longrightarrow> b ! i ! j \<noteq> Num num)"
proof (induction rs)
  case Nil
  then show ?case by simp
next
  case (Cons r rs)
  have r: "r < 9" "drawsInRange rs" using Cons.prems(1) by (simp_all add: drawsInRange_def)
  let ?P = "\<forall>i j. s \<le> i \<and> i < s + 3 \<and> s \<le> j \<and> j < s + 3 \<longrightarrow> b ! i ! j \<noteq> Num (r + 1)"
  have step: "drawNum b s (r # rs) = (if ?P then Some (Inr (r + 1, rs)) else drawNum b s rs)"
    by (simp only: drawNum.simps isSafeInBox_wf9[OF assms] sum.case)
  show ?case
  proof (cases ?P)
    case True
    have "drawNum b s (r # rs) = Some (Inr (r + 1, rs))"
      unfolding step using True by (rule if_P)
    then have "res = Inr (r + 1, rs)" using Cons.prems(2) by simp
    then show ?thesis using True r by auto
  next
    case False
    have "drawNum b s (r # rs) = drawNum b s rs"
      unfolding step using False by (rule if_not_P)
    then show ?thesis using Cons.IH[OF r(2)] Cons.prems(2) by simp
  qed
qed

lemma diag_box:
  assumes "s = 0 \<or> s = 3 \<or> s = (6::nat)"
  shows "x div 3 = s div 3 \<longleftrightarrow> s \<le> x \<and> x < s + 3"
  using assms by (elim disjE) (simp_all, arith+)

lemma fill_place:
  assumes con: "consistent b" and dg: "diagOnly b" and s: "s = 0 \<or> s = 3 \<or> s = (6::nat)"
    and ij: "i < 3" "j < 3" and n: "1 \<le> n" "n \<le> 9"
    and free: "\<forall>i' j'. s \<le> i' \<and> i' < s + 3 \<and> s \<le> j' \<and> j' < s + 3 \<longrightarrow> b ! i' ! j' \<noteq> Num n"
  shows "consistent (putCell b (s + i) (s + j) (Num n)) \<and> diagOnly (putCell b (s + i) (s + j) (Num n))"
proof -
  have w: "wf9 b" using con by (simp add: consistent_def)
  have r9: "s + i < 9" "s + j < 9" using s ij by auto
  have si: "(s + i) div 3 = s div 3" "(s + j) div 3 = s div 3"
    using diag_box[OF s] ij by auto
  have "\<not> occursInGroups b (s + i) (s + j) (Num n)"
  proof
    assume "occursInGroups b (s + i) (s + j) (Num n)"
    then obtain i' j' where o: "i' < 9" "j' < 9" "related (s + i) (s + j) i' j'" "b ! i' ! j' = Num n"
      unfolding occursInGroups_iff by blast
    then have d: "i' div 3 = j' div 3" using dg unfolding diagOnly_def by auto
    have "i' div 3 = s div 3 \<and> j' div 3 = s div 3"
      using o(3) d si unfolding related_def by auto
    then have "s \<le> i' \<and> i' < s + 3 \<and> s \<le> j' \<and> j' < s + 3"
      using diag_box[OF s] by simp
    then show False using free o(4) by blast
  qed
  then have "consistent (putCell b (s + i) (s + j) (Num n))"
    using consistent_putCell[OF con r9 n] by simp
  moreover have "diagOnly (putCell b (s + i) (s + j) (Num n))"
    unfolding diagOnly_def
  proof (intro allI impI)
    fix i' j' assume a: "i' < 9" "j' < 9" "putCell b (s + i) (s + j) (Num n) ! i' ! j' \<noteq> Null"
    show "i' div 3 = j' div 3"
    proof (cases "i' = s + i \<and> j' = s + j")
      case True
      then show ?thesis using si by simp
    next
      case False
      then have "b ! i' ! j' \<noteq> Null" using a putCell_nth[OF w r9 a(1,2), of "Num n"] by auto
      then show ?thesis using dg a unfolding diagOnly_def by blast
    qed
  qed
  ultimately show ?thesis by simp
qed

lemma fillCells_ok:
  assumes s: "s = 0 \<or> s = 3 \<or> s = (6::nat)"
  shows "consistent b \<Longrightarrow> diagOnly b \<Longrightarrow> \<forall>(i, j)\<in>set ps. i < 3 \<and> j < 3 \<Longrightarrow> drawsInRange rs \<Longrightarrow>
     fillCells b s ps rs = Some res \<Longrightarrow>
     \<exists>b' rs'. res = Inr (b', rs') \<and> consistent b' \<and> diagOnly b' \<and> drawsInRange rs' \<and>
        filledCount b' \<le> filledCount b + length ps"
proof (induction ps arbitrary: b rs)
  case Nil
  then show ?case by auto
next
  case (Cons p ps)
  obtain i j where p: "p = (i, j)" by (cases p)
  have ij: "i < 3" "j < 3" and rest: "\<forall>(i, j)\<in>set ps. i < 3 \<and> j < 3"
    using Cons.prems(3) p by auto
  have w: "wf9 b" using Cons.prems(1) by (simp add: consistent_def)
  have s9: "s + 3 \<le> 9" using s by auto
  have r9: "s + i < 9" "s + j < 9" using s ij by auto
  show ?case
  proof (cases "drawNum b s rs")
    case None
    then show ?thesis using Cons.prems(5) p by simp
  next
    case (Some x)
    then obtain num rs1 where x: "x = Inr (num, rs1)" "1 \<le> num" "num \<le> 9" "drawsInRange rs1"
        "\<forall>i j. s \<le> i \<and> i < s + 3 \<and> s \<le> j \<and> j < s + 3 \<longrightarrow> b ! i ! j \<noteq> Num num"
      using drawNum_ok[OF w s9 Cons.prems(4)] by blast
    let ?b1 = "putCell b (s + i) (s + j) (Num num)"
    have b1: "consistent ?b1" "diagOnly ?b1"
      using fill_place[OF Cons.prems(1,2) s ij x(2,3,5)] by simp_all
    have set1: "setCell b (s + i) (s + j) (Num num) = Inr ?b1" using w r9 by (rule setCell_wf9)
    have "fillCells ?b1 s ps rs1 = Some res"
      using Cons.prems(5) p Some x(1) set1 by simp
    then obtain b' rs' where r: "res = Inr (b', rs')" "consistent b'" "diagOnly b'" "drawsInRange rs'"
        "filledCount b' \<le> filledCount ?b1 + length ps"
      using Cons.IH[OF b1 rest x(4)] by blast
    moreover have "filledCount ?b1 \<le> Suc (filledCount b)"
      using w r9 by (rule filledCount_put_le)
    ultimately show ?thesis by auto
  qed
qed

lemma boxCells00_length: "length (boxCells 0 0) = 9"
  by code_simp

lemma boxCells00_small: "\<forall>(i, j)\<in>set (boxCells 0 0). i < 3 \<and> j < 3"
  using in_boxCells[of _ _ 0 0] by auto

lemma fillDiagonalBox_ok:
  assumes "s = 0 \<or> s = 3 \<or> s = (6::nat)" "consistent b" "diagOnly b" "drawsInRange rs"
    "fillDiagonalBox b s rs = Some res"
  shows "\<exists>b' rs'. res = Inr (b', rs') \<and> consistent b' \<and> diagOnly b' \<and> drawsInRange rs' \<and>
        filledCount b' \<le> filledCount b + 9"
  using fillCells_ok[OF assms(1,2,3) boxCells00_small assms(4), of res] assms(5) boxCells00_length
  unfolding fillDiagonalBox_def by simp

lemma emptyBoard_nth: "i < 9 \<Longrightarrow> j < 9 \<Longrightarrow> emptyBoard ! i ! j = Null"
  by (simp add: emptyBoard_def)

lemma emptyBoard_ok: "consistent emptyBoard" "diagOnly emptyBoard" "filledCount emptyBoard = 0"
proof -
  have w: "wf9 emptyBoard" by code_simp
  then show "consistent emptyBoard" by (simp add: consistent_def emptyBoard_nth)
  show "diagOnly emptyBoard" by (simp add: diagOnly_def emptyBoard_nth)
  show "filledCount emptyBoard = 0" by code_simp
qed

lemma subsetOf_iff:
  "subsetOf p s \<longleftrightarrow> (\<forall>i<9. \<forall>j<9. p ! i ! j = Null \<or> p ! i ! j = s ! i ! j)"
  unfolding subsetOf_def list_all_iff ball_allCells ..

lemma carve_ok:
  "wf9 pb \<Longrightarrow> drawsInRange rs \<Longrightarrow> carve pb n rs = Some res \<Longrightarrow>
   \<exists>pb'. res = Inr pb' \<and> wf9 pb' \<and> filledCount pb' + n = filledCount pb \<and> subsetOf pb' pb"
proof (induction "length rs" arbitrary: pb n rs res rule: less_induct)
  case less
  note prems = less.prems
  show ?case
  proof (cases "n > 0")
    case False
    then have "res = Inr pb" using prems(3) by simp
    then show ?thesis using False prems(1) by (simp add: subsetOf_iff)
  next
    case True
    then obtain i j rs1 where rs: "rs = i # j # rs1"
      using prems(3) by (auto split: list.splits)
    have ij: "i < 9" "j < 9" and dr: "drawsInRange rs1"
      using prems(2) rs by (simp_all add: drawsInRange_def)
    have c: "cellAt pb i j = Inr (pb ! i ! j)" using prems(1) ij by (rule cellAt_wf9)
    show ?thesis
    proof (cases "pb ! i ! j = Null")
      case e: True
      then have "carve pb n rs1 = Some res"
        using prems(3) True rs c by simp
      then show ?thesis
        using less.hyps[of rs1 pb n res] rs prems(1) dr by simp
    next
      case ne: False
      let ?pb1 = "putCell pb i j Null"
      have set1: "setCell pb i j Null = Inr ?pb1" using prems(1) ij by (rule setCell_wf9)
      have w1: "wf9 ?pb1" using prems(1) by (simp add: wf9_putCell)
      have "carve ?pb1 (n - 1) rs1 = Some res"
        using prems(3) True rs c ne set1 by simp
      then obtain pb' where r: "res = Inr pb'" "wf9 pb'" "filledCount pb' + (n - 1) = filledCount ?pb1"
          "subsetOf pb' ?pb1"
        using less.hyps[of rs1 ?pb1 "n - 1" res] rs w1 dr by auto
      have "Suc (filledCount ?pb1) = filledCount pb"
        using prems(1) ij ne by (rule filledCount_clear)
      then have "filledCount pb' + n = filledCount pb" using r(3) True by simp
      moreover have "subsetOf pb' pb"
        unfolding subsetOf_iff
      proof (intro allI impI)
        fix i' j' :: nat assume a: "i' < 9" "j' < 9"
        then have "pb' ! i' ! j' = Null \<or> pb' ! i' ! j' = ?pb1 ! i' ! j'"
          using r(4) unfolding subsetOf_iff by blast
        then show "pb' ! i' ! j' = Null \<or> pb' ! i' ! j' = pb ! i' ! j'"
          using putCell_nth[OF prems(1) ij a, of Null] by (auto split: if_splits)
      qed
      ultimately show ?thesis using r by simp
    qed
  qed
qed

lemma generate_ok:
  assumes dr: "drawsInRange rs" and g: "generateSudoku rs diff = Some res"
  shows "\<exists>solved puzzle. res = Inr (solved, puzzle) \<and> consistent solved \<and> \<not> hasEmpty solved \<and>
           wf9 puzzle \<and> filledCount puzzle + attempts diff = 81 \<and> subsetOf puzzle solved \<and>
           (\<exists>seed. solveSudoku seed = Some (Inr (True, solved)))"
proof -
  obtain x1 where x1: "fillDiagonalBox emptyBoard 0 rs = Some x1"
    using g unfolding generateSudoku_def by (cases "fillDiagonalBox emptyBoard 0 rs") auto
  then obtain b1 rs1 where b1: "x1 = Inr (b1, rs1)" "consistent b1" "diagOnly b1" "drawsInRange rs1"
      "filledCount b1 \<le> filledCount emptyBoard + 9"
    using fillDiagonalBox_ok[OF _ emptyBoard_ok(1,2) dr, of 0] by blast
  obtain x2 where x2: "fillDiagonalBox b1 3 rs1 = Some x2"
    using g x1 b1(1) unfolding generateSudoku_def by (cases "fillDiagonalBox b1 3 rs1") auto
  then obtain b2 rs2 where b2: "x2 = Inr (b2, rs2)" "consistent b2" "diagOnly b2" "drawsInRange rs2"
      "filledCount b2 \<le> filledCount b1 + 9"
    using fillDiagonalBox_ok[OF _ b1(2,3,4), of 3] by blast
  obtain x3 where x3: "fillDiagonalBox b2 6 rs2 = Some x3"
    using g x1 b1(1) x2 b2(1) unfolding generateSudoku_def
    by (cases "fillDiagonalBox b2 6 rs2") auto
  then obtain b3 rs3 where b3: "x3 = Inr (b3, rs3)" "consistent b3" "diagOnly b3" "drawsInRange rs3"
      "filledCount b3 \<le> filledCount b2 + 9"
    using fillDiagonalBox_ok[OF _ b2(2,3,4), of 6] by blast
  have few: "filledCount b3 \<le> 27" using b1(5) b2(5) b3(5) emptyBoard_ok(3) by simp
  have w3: "wf9 b3" using b3(2) by (simp add: consistent_def)
  obtain x4 where x4: "solveSudoku b3 = Some x4"
    using g x1 b1(1) x2 b2(1) x3 b3(1) unfolding generateSudoku_def
    by (cases "solveSudoku b3") auto
  then obtain ok newBoard where s: "x4 = Inr (ok, newBoard)" "wf9 newBoard" "\<not> ok \<longrightarrow> newBoard = b3"
      "ok \<longrightarrow> \<not> hasEmpty newBoard \<and> (consistent b3 \<longrightarrow> consistent newBoard)"
    using recOK_solveSudokuD[of 81] w3 unfolding recOK_def solveSudoku_def by blast
  obtain x5 where x5: "carve newBoard (attempts diff) rs3 = Some x5"
    using g x1 b1(1) x2 b2(1) x3 b3(1) x4 s(1) unfolding generateSudoku_def
    by (cases "carve newBoard (attempts diff) rs3") auto
  then obtain puzzle where p: "x5 = Inr puzzle" "wf9 puzzle"
      "filledCount puzzle + attempts diff = filledCount newBoard" "subsetOf puzzle newBoard"
    using carve_ok[OF s(2) b3(4)] by blast
  have res: "res = Inr (newBoard, puzzle)"
    using g x1 b1(1) x2 b2(1) x3 b3(1) x4 s(1) x5 p(1) unfolding generateSudoku_def by simp
  have "30 \<le> attempts diff" by (simp add: attempts_def)
  then have "27 < filledCount newBoard" using p(3) by simp
  then have ok: ok using s(3) few by auto
  then have "\<not> hasEmpty newBoard" "consistent newBoard" using s(4) b3(2) by simp_all
  moreover have "filledCount newBoard = 81" using calculation(1) by (rule filledCount_full)
  moreover have "\<exists>seed. solveSudoku seed = Some (Inr (True, newBoard))"
    using x4 s(1) ok by (intro exI[of _ b3]) simp
  ultimately show ?thesis using res p by simp
qed

lemma count_list_distinct: "distinct xs \<Longrightarrow> x \<in> set xs \<Longrightarrow> count_list xs x = 1"
  by (induction xs) auto

lemma digits_once:
  assumes d: "distinct ps" and l: "length ps = 9" and inj: "inj_on f (set ps)"
    and rng: "\<forall>p\<in>set ps. \<exists>n. 1 \<le> n \<and> n \<le> 9 \<and> f p = Num n"
  shows "eachDigitOnce (map f ps)"
proof -
  let ?vs = "map f ps"
  have dv: "distinct ?vs" using d inj by (simp add: distinct_map)
  have "card (set ?vs) = 9" using distinct_card[OF dv] l by simp
  moreover have "card (Num ` {1..9::nat}) = 9" by (simp add: card_image inj_on_def)
  moreover have "set ?vs \<subseteq> Num ` {1..9}" using rng by auto
  ultimately have "set ?vs = Num ` {1..9}"
    by (intro card_subset_eq) auto
  then have "\<And>n. 1 \<le> n \<Longrightarrow> n < 10 \<Longrightarrow> count_list ?vs (Num n) = 1"
    using dv by (intro count_list_distinct) auto
  then show ?thesis
    unfolding eachDigitOnce_def list_all_iff using l by simp
qed

lemma boxCells_shift: "boxCells sr sc = map (\<lambda>(i, j). (sr + i, sc + j)) (boxCells 0 0)"
  by (simp add: boxCells_def map_concat comp_def)

lemma distinct_boxCells: "distinct (boxCells sr sc)"
proof -
  have "distinct (boxCells 0 0)" by code_simp
  moreover have "inj (\<lambda>(i, j). (sr + i, sc + j))" by (auto simp: inj_on_def)
  ultimately show ?thesis
    unfolding boxCells_shift[of sr sc]
    by (simp add: distinct_map inj_on_subset[OF _ subset_UNIV])
qed

lemma length_boxCells: "length (boxCells sr sc) = 9"
  unfolding boxCells_shift[of sr sc] by (simp add: boxCells00_length)

lemma consistent_valid:
  assumes con: "consistent b" and full: "\<not> hasEmpty b"
  shows "validSolution b"
proof -
  have w: "wf9 b" using con by (simp add: consistent_def)
  have nn: "\<And>i j. i < 9 \<Longrightarrow> j < 9 \<Longrightarrow> b ! i ! j \<noteq> Null"
    using full unfolding hasEmpty_iff by blast
  have rng: "\<And>i j. i < 9 \<Longrightarrow> j < 9 \<Longrightarrow> \<exists>n. 1 \<le> n \<and> n \<le> 9 \<and> b ! i ! j = Num n"
    using con nn unfolding consistent_def by blast
  have uniq: "\<And>i j i' j'. i < 9 \<Longrightarrow> j < 9 \<Longrightarrow> i' < 9 \<Longrightarrow> j' < 9 \<Longrightarrow> related i j i' j' \<Longrightarrow>
        b ! i' ! j' = b ! i ! j \<Longrightarrow> i' = i \<and> j' = j"
  proof -
    fix i j i' j' :: nat
    assume a: "i < 9" "j < 9" "i' < 9" "j' < 9" "related i j i' j'" "b ! i' ! j' = b ! i ! j"
    have "\<not> occursElsewhere b i j (b ! i ! j)"
      using con nn[OF a(1,2)] a(1,2) unfolding consistent_def by blast
    then show "i' = i \<and> j' = j"
      unfolding occursElsewhere_iff using a by blast
  qed
  have rows: "eachDigitOnce (rowVals b k)" if k: "k < 9" for k
    unfolding rowVals_def
  proof (rule digits_once)
    show "inj_on (\<lambda>j. b ! k ! j) (set [0..<9])"
      unfolding inj_on_def using uniq[of k _ k _] k by (auto simp: related_def)
    show "\<forall>p\<in>set [0..<9]. \<exists>n. 1 \<le> n \<and> n \<le> 9 \<and> b ! k ! p = Num n"
      using rng[OF k] by auto
  qed simp_all
  have cols: "eachDigitOnce (colVals b k)" if k: "k < 9" for k
    unfolding colVals_def
  proof (rule digits_once)
    show "inj_on (\<lambda>i. b ! i ! k) (set [0..<9])"
      unfolding inj_on_def using uniq[of _ k _ k] k by (auto simp: related_def)
    show "\<forall>p\<in>set [0..<9]. \<exists>n. 1 \<le> n \<and> n \<le> 9 \<and> b ! p ! k = Num n"
      using rng[OF _ k] by auto
  qed simp_all
  have boxes: "eachDigitOnce (boxVals b k)" if k: "k < 9" for k
    unfolding boxVals_def
  proof (rule digits_once)
    let ?sr = "3 * (k div 3)" and ?sc = "3 * (k mod 3)"
    have inb: "i < 9 \<and> j < 9 \<and> i div 3 = k div 3 \<and> j div 3 = k mod 3"
      if "(i, j) \<in> set (boxCells ?sr ?sc)" for i j
    proof -
      have "?sr \<le> i \<and> i < ?sr + 3 \<and> ?sc \<le> j \<and> j < ?sc + 3"
        using that by (simp only: in_boxCells)
      moreover have "k div 3 < 3" using k by (simp add: div_less_iff_less_mult)
      moreover have "k mod 3 < 3" by simp
      ultimately show ?thesis by (auto simp: div_nat_eqI)
    qed
    show "distinct (boxCells ?sr ?sc)" by (rule distinct_boxCells)
    show "length (boxCells ?sr ?sc) = 9" by (rule length_boxCells)
    show "inj_on (\<lambda>(i, j). b ! i ! j) (set (boxCells ?sr ?sc))"
      unfolding inj_on_def
    proof (intro ballI impI)
      fix p q assume pq: "p \<in> set (boxCells ?sr ?sc)" "q \<in> set (boxCells ?sr ?sc)"
        "(case p of (i, j) \<Rightarrow> b ! i ! j) = (case q of (i, j) \<Rightarrow> b ! i ! j)"
      obtain i j i' j' where e: "p = (i, j)" "q = (i', j')" by (cases p, cases q) auto
      have "related i j i' j'" using inb[of i j] inb[of i' j'] pq e by (simp add: related_def)
      then show "p = q" using uniq[of i j i' j'] inb[of i j] inb[of i' j'] pq e by simp
    qed
    show "\<forall>p\<in>set (boxCells ?sr ?sc). \<exists>n. 1 \<le> n \<and> n \<le> 9 \<and> (case p of (i, j) \<Rightarrow> b ! i ! j) = Num n"
    proof (intro ballI)
      fix p assume p: "p \<in> set (boxCells ?sr ?sc)"
      obtain i j where e: "p = (i, j)" by (cases p)
      then have "i < 9" "j < 9" using inb[of i j] p by simp_all
      then show "\<exists>n. 1 \<le> n \<and> n \<le> 9 \<and> (case p of (i, j) \<Rightarrow> b ! i ! j) = Num n"
        using rng[of i j] e by simp
    qed
  qed
  show ?thesis
    unfolding validSolution_def list_all_iff using w full rows cols boxes by simp
qed

lemma checkWin_fullSudoku: "checkWin fullSudoku = Inr True"
  by code_simp

lemma fill0_eval: "fillDiagonalBox emptyBoard 0 (fillDraws0 @ xs) = Some (Inr (seeded1, xs))"
  by code_simp

lemma fill3_eval: "fillDiagonalBox seeded1 3 (fillDraws3 @ xs) = Some (Inr (seeded2, xs))"
  by code_simp

lemma fill6_eval: "fillDiagonalBox seeded2 6 (fillDraws6 @ xs) = Some (Inr (seededBoard, xs))"
  by code_simp

lemma solve_eval: "solveSudoku seededBoard = Some (Inr (True, solvedBoard))"
  by code_simp

lemma carve_easy_eval: "carve solvedBoard 30 carveDrawsEasy = Some (Inr easyPuzzle)"
  by code_simp

lemma carve_hard_eval: "carve solvedBoard 56 carveDrawsHard = Some (Inr hardPuzzle)"
  by code_simp

lemma generate_easy_eval: "generateSudoku drawsEasy easy = Some (Inr (solvedBoard, easyPuzzle))"
  by (simp add: generateSudoku_def drawsEasy_def attempts_def
      fill0_eval fill3_eval fill6_eval solve_eval carve_easy_eval del: carve.simps)

lemma generate_hard_eval: "generateSudoku drawsHard hard = Some (Inr (solvedBoard, hardPuzzle))"
  by (simp add: generateSudoku_def drawsHard_def attempts_def
      fill0_eval fill3_eval fill6_eval solve_eval carve_hard_eval del: carve.simps)

lemma draws_eval: "drawsInRange drawsEasy" "drawsInRange drawsHard"
  by code_simp+

text \<open>
  A legal full grid: checkWin accepts it, so it has neither an empty cell nor a duplicate.
\<close>

theorem checkWin_iff_witness:
  "wf9 fullSudoku \<and> checkWin fullSudoku = Inr True \<and>
   \<not> hasEmpty fullSudoku \<and> \<not> hasDuplicate fullSudoku"
proof -
  have w: "wf9 fullSudoku" by code_simp
  note c = checkWin_fullSudoku
  from checkWin_iff[OF w] c have "\<not> hasEmpty fullSudoku" "\<not> hasDuplicate fullSudoku"
    by auto
  with w c show ?thesis by simp
qed

text \<open>
  Claim C1: whenever generateSudoku returns a pair, every row, every column and every box
  of the solved board holds each digit 1..9 exactly once, and no cell is empty.  (When the
  solver fails, the board has at most 27 filled cells and the carving loop, which must
  clear at least 30 filled cells, does not end: nothing is returned.)
\<close>

theorem generateSudoku_solved_valid:
  "drawsInRange rs \<Longrightarrow> generateSudoku rs diff = Some (Inr (solved, puzzle)) \<Longrightarrow>
   validSolution solved"
  using generate_ok[of rs diff "Inr (solved, puzzle)"] consistent_valid[of solved] by auto

text \<open>A run of the generator on concrete draws, for the difficulty easy.\<close>

theorem generateSudoku_solved_valid_witness:
  "drawsInRange drawsEasy \<and> generateSudoku drawsEasy easy = Some (Inr (solvedBoard, easyPuzzle)) \<and>
   validSolution solvedBoard"
  using generateSudoku_solved_valid[OF draws_eval(1) generate_easy_eval]
    draws_eval(1) generate_easy_eval by simp

text \<open>
  Claim C6: whenever generateSudoku returns a pair, the puzzle board has exactly 81 minus
  \<open>attempts diff\<close> non-empty cells, every non-empty cell of the puzzle holds the value of
  the same cell of the solved board, and the solved board returned is the board as
  solveSudoku left it.
\<close>

theorem generateSudoku_puzzle_carved:
  "drawsInRange rs \<Longrightarrow> generateSudoku rs diff = Some (Inr (solved, puzzle)) \<Longrightarrow>
   wf9 puzzle \<and> filledCount puzzle = 81 - attempts diff \<and> subsetOf puzzle solved \<and>
   (\<exists>seed. solveSudoku seed = Some (Inr (True, solved)))"
  using generate_ok[of rs diff "Inr (solved, puzzle)"] by auto

text \<open>A run of the generator on concrete draws, for the difficulty hard.\<close>

theorem generateSudoku_puzzle_carved_witness:
  "drawsInRange drawsHard \<and> generateSudoku drawsHard hard = Some (Inr (solvedBoard, hardPuzzle)) \<and>
   filledCount hardPuzzle = 25 \<and> subsetOf hardPuzzle solvedBoard"
  using generateSudoku_puzzle_carved[OF draws_eval(2) generate_hard_eval]
    draws_eval(2) generate_hard_eval by (simp add: attempts_def)

text \<open>
  Claim C7: the number of cells to clear is the fixed table easy 30, medium 45, hard 56;
  so every easy puzzle returned has exactly 51 non-empty cells and every hard puzzle
  exactly 25.
\<close>

theorem attempts_table:
  "attempts easy = 30 \<and> attempts medium = 45 \<and> attempts hard = 56 \<and>
   (\<forall>rs solved puzzle. drawsInRange rs \<longrightarrow>
      generateSudoku rs easy = Some (Inr (solved, puzzle)) \<longrightarrow> filledCount puzzle = 51) \<and>
   (\<forall>rs solved puzzle. drawsInRange rs \<longrightarrow>
      generateSudoku rs hard = Some (Inr (solved, puzzle)) \<longrightarrow> filledCount puzzle = 25)"
proof -
  have a: "attempts easy = 30" "attempts medium = 45" "attempts hard = 56"
    by (simp_all add: attempts_def)
  have "filledCount puzzle + attempts diff = 81"
    if "drawsInRange rs" "generateSudoku rs diff = Some (Inr (solved, puzzle))"
    for rs diff solved puzzle
    using generate_ok[OF that] by auto
  from this[of _ easy] this[of _ hard] a show ?thesis by fastforce
qed

text \<open>The two runs above: 51 clues for easy, 25 for hard.\<close>

theorem attempts_table_witness:
  "drawsInRange drawsEasy \<and> generateSudoku drawsEasy easy = Some (Inr (solvedBoard, easyPuzzle)) \<and>
   filledCount easyPuzzle = 51 \<and>
   drawsInRange drawsHard \<and> generateSudoku drawsHard hard = Some (Inr (solvedBoard, hardPuzzle)) \<and>
   filledCount hardPuzzle = 25"
  using attempts_table draws_eval generate_easy_eval generate_hard_eval by blast

lemma validRef_iff:
  "validRef h b \<longleftrightarrow>
     (\<exists>refs. outerArr h b = Some refs \<and> b < nextAddr h \<and>
        (\<forall>r\<in>set refs. r < nextAddr h \<and> rowArr h r \<noteq> None))"
  unfolding validRef_def list_all_iff by (cases "outerArr h b") auto

lemma sameBelow_refl: "sameBelow n h h"
  by (simp add: sameBelow_def)

lemma sameBelow_trans:
  "sameBelow n h h1 \<Longrightarrow> sameBelow m h1 h2 \<Longrightarrow> n \<le> m \<Longrightarrow> sameBelow n h h2"
  unfolding sameBelow_def by auto

lemma sameBelow_valid:
  assumes "validRef h b" "sameBelow (nextAddr h) h h'" "nextAddr h \<le> nextAddr h'"
  shows "validRef h' b \<and> boardOf h' b = boardOf h b"
proof -
  obtain refs where r: "outerArr h b = Some refs" "b < nextAddr h"
      "\<forall>r\<in>set refs. r < nextAddr h \<and> rowArr h r \<noteq> None"
    using assms(1) unfolding validRef_iff by blast
  have o: "outerArr h' b = Some refs" using assms(2) r(1,2) by (simp add: sameBelow_def)
  have rows: "\<forall>a\<in>set refs. rowArr h' a = rowArr h a"
    using assms(2) r(3) by (simp add: sameBelow_def)
  have "validRef h' b"
    unfolding validRef_iff using o r(2,3) rows assms(3) by fastforce
  moreover have "boardOf h' b = boardOf h b"
    unfolding boardOf_def using o r(1) rows by simp
  ultimately show ?thesis by simp
qed

lemma readCell_boardOf:
  assumes "validRef h b"
  shows "readCell h b i j = cellAt (boardOf h b) i j"
proof -
  obtain refs where r: "outerArr h b = Some refs"
      "\<forall>r\<in>set refs. r < nextAddr h \<and> rowArr h r \<noteq> None"
    using assms unfolding validRef_iff by blast
  show ?thesis
  proof (cases "i < length refs")
    case False
    then show ?thesis by (simp add: readCell_def rowRef_def cellAt_def boardOf_def r(1))
  next
    case True
    then obtain xs where "rowArr h (refs ! i) = Some xs" using r(2) by fastforce
    then show ?thesis using True
      by (simp add: readCell_def rowRef_def cellAt_def boardOf_def r(1))
  qed
qed

lemma scanH_boardOf: "validRef h b \<Longrightarrow> scanH h b ps v = scan (boardOf h b) ps v"
  by (induction ps) (auto simp: readCell_boardOf split: sum.splits)

lemma isSafeH_boardOf: "validRef h b \<Longrightarrow> isSafeH h b i j v = isSafe (boardOf h b) i j v"
  by (simp add: isSafeH_def isSafe_def scanH_boardOf)

lemma makeTemp_frame:
  "makeTemp h current i j = (out, h') \<Longrightarrow>
   sameBelow (nextAddr h) h h' \<and> nextAddr h \<le> nextAddr h'"
  unfolding makeTemp_def allocOuter_def allocRow_def setRowRef_def writeCell_def rowRef_def
    sameBelow_def
  by (auto split: option.splits sum.splits if_splits simp: Let_def)

lemma makeTemp_board:
  assumes v: "validRef h current" and i: "i < length (boardOf h current)"
  shows "\<exists>temp h'. makeTemp h current i j = (Inr temp, h') \<and> validRef h' temp \<and>
           boardOf h' temp = (boardOf h current)[i := arrSet (boardOf h current ! i) j Null]"
proof -
  obtain refs where r: "outerArr h current = Some refs" "current < nextAddr h"
      "\<forall>r\<in>set refs. r < nextAddr h \<and> rowArr h r \<noteq> None"
    using v unfolding validRef_iff by blast
  have il: "i < length refs" using i r(1) by (simp add: boardOf_def)
  then have ri: "refs ! i < nextAddr h" "rowArr h (refs ! i) \<noteq> None" using r(3) by auto
  then obtain xs where xs: "rowArr h (refs ! i) = Some xs" by blast
  let ?t = "nextAddr h" and ?nr = "Suc (nextAddr h)"
  let ?h4 = "h\<lparr>rowArr := (rowArr h)(?nr \<mapsto> arrSet xs j Null),
               outerArr := (outerArr h)(?t \<mapsto> refs[i := ?nr]),
               nextAddr := Suc (Suc (nextAddr h))\<rparr>"
  have m: "makeTemp h current i j = (Inr ?t, ?h4)"
    using r(1,2) il ri(1) xs
    by (simp add: makeTemp_def allocOuter_def allocRow_def setRowRef_def writeCell_def
        rowRef_def Let_def)
  have old: "\<forall>a\<in>set refs. a \<noteq> ?nr \<and> rowArr ?h4 a = rowArr h a"
    using r(3) by auto
  have "\<forall>a\<in>set (refs[i := ?nr]). a < nextAddr ?h4 \<and> rowArr ?h4 a \<noteq> None"
  proof
    fix a assume "a \<in> set (refs[i := ?nr])"
    then have "a = ?nr \<or> a \<in> set refs"
      using set_update_subset_insert[of refs i ?nr] by auto
    then show "a < nextAddr ?h4 \<and> rowArr ?h4 a \<noteq> None"
      using r(3) by auto
  qed
  moreover have "outerArr ?h4 ?t = Some (refs[i := ?nr])" "?t < nextAddr ?h4" by simp_all
  ultimately have "validRef ?h4 ?t"
    unfolding validRef_iff by blast
  moreover have "boardOf ?h4 ?t = (boardOf h current)[i := arrSet (boardOf h current ! i) j Null]"
  proof -
    have "boardOf ?h4 ?t = (map (\<lambda>a. the (rowArr ?h4 a)) refs)[i := arrSet xs j Null]"
      by (simp add: boardOf_def map_update)
    also have "map (\<lambda>a. the (rowArr ?h4 a)) refs = map (\<lambda>a. the (rowArr h a)) refs"
      using old by (intro map_cong) auto
    finally show ?thesis using r(1) il xs by (simp add: boardOf_def)
  qed
  ultimately show ?thesis using m by blast
qed

lemma checkCellsH_ok:
  "validRef h current \<Longrightarrow> checkCellsH h current ps = (out, h') \<Longrightarrow>
   sameBelow (nextAddr h) h h' \<and> nextAddr h \<le> nextAddr h' \<and>
   out = checkCells (boardOf h current) ps"
proof (induction ps arbitrary: h)
  case Nil
  then show ?case by (auto simp: sameBelow_refl)
next
  case (Cons p ps)
  obtain i j where p: "p = (i, j)" by (cases p)
  let ?b = "boardOf h current"
  have rd: "readCell h current i j = cellAt ?b i j"
    using Cons.prems(1) by (rule readCell_boardOf)
  show ?case
  proof (cases "cellAt ?b i j")
    case (Inl e)
    then show ?thesis using Cons.prems(2) p rd by (auto simp: sameBelow_refl)
  next
    case (Inr val)
    show ?thesis
    proof (cases "val = Null")
      case True
      then show ?thesis using Cons.prems(2) p rd Inr by (auto simp: sameBelow_refl)
    next
      case False
      have il: "i < length ?b" using Inr by (auto simp: cellAt_def split: if_splits)
      obtain temp h1 where t: "makeTemp h current i j = (Inr temp, h1)" "validRef h1 temp"
          "boardOf h1 temp = ?b[i := arrSet (?b ! i) j Null]"
        using makeTemp_board[OF Cons.prems(1) il, of j] by blast
      have fr: "sameBelow (nextAddr h) h h1" "nextAddr h \<le> nextAddr h1"
        using makeTemp_frame[OF t(1)] by simp_all
      have v1: "validRef h1 current" "boardOf h1 current = ?b"
        using sameBelow_valid[OF Cons.prems(1) fr] by simp_all
      have sc: "setCell ?b i j Null = Inr (boardOf h1 temp)"
        using il t(3) by (simp add: setCell_def)
      have sf: "isSafeH h1 temp i j val = isSafe (boardOf h1 temp) i j val"
        using t(2) by (rule isSafeH_boardOf)
      show ?thesis
      proof (cases "isSafe (boardOf h1 temp) i j val")
        case e: (Inl e)
        have "checkCells ?b (p # ps) = Inl e"
          using p Inr False sc e by simp
        moreover have "checkCellsH h current (p # ps) = (Inl e, h1)"
          using p rd Inr False t(1) sf e by simp
        ultimately show ?thesis using Cons.prems(2) fr by simp
      next
        case s: (Inr safe)
        show ?thesis
        proof (cases safe)
          case no: False
          have "checkCells ?b (p # ps) = Inr False"
            using p Inr False sc s no by simp
          moreover have "checkCellsH h current (p # ps) = (Inr False, h1)"
            using p rd Inr False t(1) sf s no by simp
          ultimately show ?thesis using Cons.prems(2) fr by simp
        next
          case True
          then have c: "checkCellsH h1 current ps = (out, h')"
            using Cons.prems(2) p rd Inr False t(1) sf s by simp
          have "sameBelow (nextAddr h1) h1 h'" "nextAddr h1 \<le> nextAddr h'"
              "out = checkCells (boardOf h1 current) ps"
            using Cons.IH[OF v1(1) c] by simp_all
          moreover have "checkCells ?b (p # ps) = checkCells ?b ps"
            using p Inr False sc s True by simp
          ultimately show ?thesis
            using fr v1(2) sameBelow_trans[of "nextAddr h" h h1 "nextAddr h1" h'] by auto
        qed
      qed
    qed
  qed
qed

text \<open>
  Claim C10: checkWin does not modify the board it is given.  On the heap model, after
  \<^verbatim>\<open>checkWin(current)\<close> every array that existed before the call (the outer array of
  \<open>current\<close> and its rows among them) has the contents it had: the writes go to the two
  arrays allocated for \<^verbatim>\<open>temp\<close>.  So \<open>current\<close> stands for the same board, cell by
  cell; and the result is that of the value model \<open>checkWin\<close>.
\<close>

theorem checkWin_leaves_board:
  "validRef h current \<Longrightarrow> checkWinH h current = (out, h') \<Longrightarrow>
   sameBelow (nextAddr h) h h' \<and> validRef h' current \<and>
   boardOf h' current = boardOf h current \<and> out = checkWin (boardOf h current)"
proof -
  assume v: "validRef h current" and c: "checkWinH h current = (out, h')"
  have f: "sameBelow (nextAddr h) h h'" "nextAddr h \<le> nextAddr h'"
      "out = checkWin (boardOf h current)"
    using checkCellsH_ok[OF v, of allCells out h'] c unfolding checkWinH_def checkWin_def
    by simp_all
  then show ?thesis using sameBelow_valid[OF v f(1,2)] by simp
qed

text \<open>A heap that holds a legal full grid: checkWin accepts it and the grid is as before.\<close>

theorem checkWin_leaves_board_witness:
  "validRef (heapWith fullSudoku) 9 \<and>
   fst (checkWinH (heapWith fullSudoku) 9) = Inr True \<and>
   boardOf (snd (checkWinH (heapWith fullSudoku) 9)) 9 = fullSudoku"
proof -
  have v: "validRef (heapWith fullSudoku) 9" by code_simp
  have b: "boardOf (heapWith fullSudoku) 9 = fullSudoku" by code_simp
  have "boardOf (snd (checkWinH (heapWith fullSudoku) 9)) 9 = boardOf (heapWith fullSudoku) 9"
     "fst (checkWinH (heapWith fullSudoku) 9) = checkWin (boardOf (heapWith fullSudoku) 9)"
    using checkWin_leaves_board[OF v surjective_pairing] by simp_all
  then show ?thesis using v b checkWin_fullSudoku by simp
qed

end
